theory Spec2Isabelle
  imports Complex_Main "HOL-Library.Sublist" "HOL-Library.AList" "HOL-Library.Multiset"
    "HOL-Library.Log_Nat"
begin

section \<open>Data model\<close>

text \<open>
  A roster entry as \<^verbatim>\<open>functionality.py\<close> reads it: the attributes \<^verbatim>\<open>name\<close>,
  \<^verbatim>\<open>position\<close>, \<^verbatim>\<open>slot_position\<close> and \<^verbatim>\<open>points\<close> of a player object, together
  with the two attributes of the data model that the allocation never reads.
  The points are a Python float: a finite double, taken as the rational number that it
  denotes. The allocation only compares and sorts the points, which is exact on doubles.
  The sums and the percentage are given twice below: with exact arithmetic, for the
  statements about the structure of the allocation, and with the rounded arithmetic of
  the doubles, for the statements that compare two computed sums.
\<close>

record player =
  name :: string
  position :: string
  slot_position :: string
  points :: rat
  projected_points :: rat
  game_played :: nat

text \<open>One box score of a week: the two lineups of a matchup.\<close>

record box_score =
  home_lineup :: "player list"
  away_lineup :: "player list"

text \<open>The exceptions that the modelled code can raise.\<close>

datatype py_error = KeyError | ZeroDivisionError

text \<open>
  A Python \<^verbatim>\<open>dict\<close> keeps its keys in insertion order, and the code depends on that
  order (stable sorting, slicing, iteration), so a dictionary is an association list
  with distinct keys. \<^verbatim>\<open>d[k] = v\<close> is \<^const>\<open>AList.update\<close> (replace in place, or append
  a new key at the end), \<^verbatim>\<open>d.pop(k)\<close> is \<^const>\<open>AList.delete\<close>, and a lookup is
  \<^const>\<open>map_of\<close>, whose \<open>None\<close> is the \<^verbatim>\<open>KeyError\<close> of \<^verbatim>\<open>d[k]\<close>.
\<close>

type_synonym ('k, 'v) dict = "('k \<times> 'v) list"

type_synonym scores = "(string, rat) dict"

type_synonym pool = "(string, scores) dict"

type_synonym starter_counts = "(string, nat) dict"

text \<open>\<^verbatim>\<open>a | b\<close> on dictionaries: the keys of \<open>a\<close> in their order, values overwritten by
  \<open>b\<close>, then the new keys of \<open>b\<close> in their order.\<close>

definition dict_union :: "('k, 'v) dict \<Rightarrow> ('k, 'v) dict \<Rightarrow> ('k, 'v) dict" where
  "dict_union a b = fold (\<lambda>kv d. AList.update (fst kv) (snd kv) d) b a"

text \<open>\<^verbatim>\<open>sorted(d.items(), key=lambda item: item[1], reverse=True)\<close>: a stable sort,
  descending by value (Python's \<^verbatim>\<open>reverse=True\<close> keeps equal items in their order).\<close>

definition sorted_desc :: "('k, rat) dict \<Rightarrow> ('k, rat) dict" where
  "sorted_desc d = sort_key (\<lambda>item. - snd item) d"

text \<open>\<^verbatim>\<open>s.split(c)\<close> with an explicit separator.\<close>

fun str_split :: "char \<Rightarrow> string \<Rightarrow> string list" where
  "str_split c [] = [[]]"
| "str_split c (x # xs) =
     (if x = c then [] # str_split c xs
      else (case str_split c xs of
              [] \<Rightarrow> [[x]]
            | w # ws \<Rightarrow> (x # w) # ws))"

section \<open>Starter counts\<close>

text \<open>A starter is a player whose slot is neither the bench nor the injured reserve.\<close>

definition is_starter :: "player \<Rightarrow> bool" where
  "is_starter p \<longleftrightarrow> slot_position p \<noteq> ''BE'' \<and> slot_position p \<noteq> ''IR''"

text \<open>One iteration of a lineup loop of \<^verbatim>\<open>get_starter_counts\<close>: the state is the
  dictionary of counts and the running number of starters.\<close>

definition count_starter :: "player \<Rightarrow> starter_counts \<times> nat \<Rightarrow> starter_counts \<times> nat" where
  "count_starter p st =
     (case st of (starters, starter_count) \<Rightarrow>
        if is_starter p then
          (case map_of starters (slot_position p) of
             Some n \<Rightarrow> (AList.update (slot_position p) (n + 1) starters, starter_count + 1)
           | None \<Rightarrow> (AList.update (slot_position p) 1 starters, starter_count + 1))
        else (starters, starter_count))"

text \<open>
  \<^verbatim>\<open>get_starter_counts\<close>, on the box scores that \<^verbatim>\<open>league.box_scores\<close> returned.
  The \<^verbatim>\<open>return\<close> is inside the loop over the box scores, so the first box score
  decides; with no box score the loop body never runs and Python returns \<^verbatim>\<open>None\<close>.
  No statement of the function raises.
\<close>

fun get_starter_counts :: "box_score list \<Rightarrow> py_error + starter_counts option" where
  "get_starter_counts [] = Inr None"
| "get_starter_counts (i # rest) =
     (case fold count_starter (home_lineup i) ([], 0) of (h_starters, h_starter_count) \<Rightarrow>
      case fold count_starter (away_lineup i) ([], 0) of (a_starters, a_starter_count) \<Rightarrow>
        if a_starter_count > h_starter_count then Inr (Some a_starters)
        else Inr (Some h_starters))"

section \<open>Optimal lineup\<close>

text \<open>First loop of \<^verbatim>\<open>optimal_lineup_score\<close>: file the player under its position.\<close>

definition place_player :: "player \<Rightarrow> pool \<Rightarrow> pool" where
  "place_player p position_players =
     (case map_of position_players (position p) of
        Some bucket \<Rightarrow>
          AList.update (position p) (AList.update (name p) (points p) bucket) position_players
      | None \<Rightarrow>
          AList.update (position p) (AList.update (name p) (points p) []) position_players)"

definition position_players_of :: "player list \<Rightarrow> pool" where
  "position_players_of lineup = fold place_player lineup []"

text \<open>The score of the lineup as it was played.\<close>

definition add_score :: "player \<Rightarrow> rat \<Rightarrow> rat" where
  "add_score p score = (if slot_position p \<notin> set [''BE'', ''IR''] then score + points p else score)"

definition actual_score :: "player list \<Rightarrow> rat" where
  "actual_score lineup = fold add_score lineup 0"

text \<open>Second loop: every key of the starter counts is filled from the bucket of the
  position of that name; a missing bucket is the caught \<^verbatim>\<open>KeyError\<close>.\<close>

definition fill_position :: "string \<times> nat \<Rightarrow> pool \<times> pool \<Rightarrow> pool \<times> pool" where
  "fill_position slot st =
     (case slot of (pos, num) \<Rightarrow>
      case st of (position_players, best_lineup) \<Rightarrow>
        (case map_of position_players pos of
           Some bucket \<Rightarrow>
             (AList.update pos (drop num (sorted_desc bucket)) position_players,
              AList.update pos (take num (sorted_desc bucket)) best_lineup)
         | None \<Rightarrow> (position_players, AList.update pos [] best_lineup)))"

text \<open>\<^verbatim>\<open>best_flex\<close>: pool the buckets of the flex positions (a missing bucket is
  skipped), take the best \<open>num\<close>, and remove them from every bucket.\<close>

definition flex_pool :: "string list \<Rightarrow> pool \<Rightarrow> scores" where
  "flex_pool flexes player_pool =
     fold (\<lambda>flex_position pool.
             case map_of player_pool flex_position of
               Some bucket \<Rightarrow> dict_union pool bucket
             | None \<Rightarrow> pool) flexes []"

definition remove_best :: "scores \<Rightarrow> pool \<Rightarrow> pool" where
  "remove_best best player_pool =
     map (\<lambda>entry. (fst entry, fold (\<lambda>p bucket. AList.delete (fst p) bucket) best (snd entry)))
       player_pool"

definition best_flex :: "string list \<Rightarrow> pool \<Rightarrow> nat \<Rightarrow> scores \<times> pool" where
  "best_flex flexes player_pool num =
     (let best = take num (sorted_desc (flex_pool flexes player_pool))
      in (best, remove_best best player_pool))"

text \<open>Third loop: the keys that name a flex slot.\<close>

definition is_flex :: "string \<Rightarrow> bool" where
  "is_flex pos \<longleftrightarrow> \<not> sublist ''D/ST'' pos \<and> CHR ''/'' \<in> set pos"

definition fill_flex :: "string \<times> nat \<Rightarrow> pool \<times> pool \<Rightarrow> pool \<times> pool" where
  "fill_flex slot st =
     (case slot of (pos, num) \<Rightarrow>
      case st of (position_players, best_lineup) \<Rightarrow>
        if is_flex pos then
          (case best_flex (str_split CHR ''/'' pos) position_players num of
             (best, player_pool) \<Rightarrow> (player_pool, AList.update pos best best_lineup))
        else (position_players, best_lineup))"

text \<open>The offensive-player and defensive-player slots, when the counts have them.\<close>

definition fill_named :: "string \<Rightarrow> string list \<Rightarrow> starter_counts \<Rightarrow> pool \<times> pool \<Rightarrow> pool \<times> pool" where
  "fill_named key flex starter_counts st =
     (case st of (position_players, best_lineup) \<Rightarrow>
        (case map_of starter_counts key of
           Some num \<Rightarrow>
             (case best_flex flex position_players num of
                (best, player_pool) \<Rightarrow> (player_pool, AList.update key best best_lineup))
         | None \<Rightarrow> (position_players, best_lineup)))"

definition op_flex :: "string list" where
  "op_flex = [''RB'', ''WR'', ''TE'', ''QB'']"

definition dp_flex :: "string list" where
  "dp_flex = [''DT'', ''DE'', ''LB'', ''CB'', ''S'']"

text \<open>The allocation of \<^verbatim>\<open>optimal_lineup_score\<close>: the remaining pool and
  \<^verbatim>\<open>best_lineup\<close> after all the slot-filling loops.\<close>

definition allocate :: "player list \<Rightarrow> starter_counts \<Rightarrow> pool \<times> pool" where
  "allocate lineup starter_counts =
     fill_named ''DP'' dp_flex starter_counts
       (fill_named ''OP'' op_flex starter_counts
          (fold fill_flex starter_counts
             (fold fill_position starter_counts (position_players_of lineup, []))))"

definition best_lineup_of :: "player list \<Rightarrow> starter_counts \<Rightarrow> pool" where
  "best_lineup_of lineup starter_counts = snd (allocate lineup starter_counts)"

definition lineup_total :: "pool \<Rightarrow> rat" where
  "lineup_total best_lineup = sum_list (map (\<lambda>entry. sum_list (map snd (snd entry))) best_lineup)"

definition best_score_of :: "player list \<Rightarrow> starter_counts \<Rightarrow> rat" where
  "best_score_of lineup starter_counts = lineup_total (best_lineup_of lineup starter_counts)"

text \<open>\<^verbatim>\<open>optimal_lineup_score\<close>: the division raises when the best score is zero.\<close>

definition optimal_lineup_score ::
  "player list \<Rightarrow> starter_counts \<Rightarrow> py_error + (rat \<times> rat \<times> rat \<times> rat)" where
  "optimal_lineup_score lineup starter_counts =
     (let score = actual_score lineup;
          best_score = best_score_of lineup starter_counts
      in if best_score = 0 then Inl ZeroDivisionError
         else Inr (best_score, score, best_score - score, (score / best_score) * 100))"

section \<open>Floating-point arithmetic\<close>

text \<open>
  The value of a Python float: a finite double (as a rational), an infinity or a NaN.
  The two zeros of IEEE are not distinguished; they compare equal in Python and nothing
  in the modelled code tells them apart.
\<close>

datatype pyfloat = Fin rat | PInf | NInf | NaN

text \<open>The binary exponent of a positive rational, the integer part of its logarithm to
  base 2, computed from the number of bits of an integer.\<close>

definition ilog2 :: "rat \<Rightarrow> int" where
  "ilog2 x = (if 1 \<le> x then bitlen \<lfloor>x\<rfloor> - 1 else - bitlen (\<lceil>1 / x\<rceil> - 1))"

text \<open>Rounding to the nearest integer, a tie to the even one.\<close>

definition round_half_even :: "rat \<Rightarrow> int" where
  "round_half_even q =
     (let f = \<lfloor>q\<rfloor>; r = q - of_int f
      in if r < 1 / 2 then f else if 1 / 2 < r then f + 1 else if even f then f else f + 1)"

text \<open>
  IEEE 754 binary64, round to nearest, ties to even: a significand of 53 bits, the
  exponent of a normal number between \<open>-1022\<close> and \<open>1023\<close>, the subnormal numbers spaced
  \<^verbatim>\<open>2^-1074\<close> apart, and overflow to an infinity when the rounded magnitude reaches
  \<^verbatim>\<open>2^1024\<close>.
\<close>

definition round_double :: "rat \<Rightarrow> pyfloat" where
  "round_double x =
     (if x = 0 then Fin 0
      else let e = max (ilog2 \<bar>x\<bar>) (- 1022);
               ulp = 2 powi (e - 52);
               y = of_int (round_half_even (\<bar>x\<bar> / ulp)) * ulp
           in if 2 ^ 1024 \<le> y then (if 0 < x then PInf else NInf) else Fin (sgn x * y))"

text \<open>The operations of Python on floats that \<^verbatim>\<open>optimal_lineup_score\<close> uses. None of
  them raises, except the division by zero, which the caller of \<open>fdiv\<close> below checks.\<close>

fun fneg :: "pyfloat \<Rightarrow> pyfloat" where
  "fneg (Fin a) = Fin (- a)"
| "fneg PInf = NInf"
| "fneg NInf = PInf"
| "fneg NaN = NaN"

fun fadd :: "pyfloat \<Rightarrow> pyfloat \<Rightarrow> pyfloat" where
  "fadd (Fin a) (Fin b) = round_double (a + b)"
| "fadd NaN y = NaN"
| "fadd x NaN = NaN"
| "fadd PInf NInf = NaN"
| "fadd NInf PInf = NaN"
| "fadd PInf y = PInf"
| "fadd x PInf = PInf"
| "fadd NInf y = NInf"
| "fadd x NInf = NInf"

definition fsub :: "pyfloat \<Rightarrow> pyfloat \<Rightarrow> pyfloat" where
  "fsub x y = fadd x (fneg y)"

fun fsign :: "pyfloat \<Rightarrow> int" where
  "fsign (Fin a) = (if 0 < a then 1 else if a < 0 then - 1 else 0)"
| "fsign PInf = 1"
| "fsign NInf = - 1"
| "fsign NaN = 0"

definition inf_of_sign :: "int \<Rightarrow> pyfloat" where
  "inf_of_sign s = (if 0 < s then PInf else if s < 0 then NInf else NaN)"

fun fmul :: "pyfloat \<Rightarrow> pyfloat \<Rightarrow> pyfloat" where
  "fmul (Fin a) (Fin b) = round_double (a * b)"
| "fmul NaN y = NaN"
| "fmul x NaN = NaN"
| "fmul x y = inf_of_sign (fsign x * fsign y)"

fun fdiv :: "pyfloat \<Rightarrow> pyfloat \<Rightarrow> pyfloat" where
  "fdiv (Fin a) (Fin b) = round_double (a / b)"
| "fdiv NaN y = NaN"
| "fdiv x NaN = NaN"
| "fdiv (Fin a) y = Fin 0"
| "fdiv x (Fin b) = inf_of_sign (fsign x * fsign (Fin b))"
| "fdiv x y = NaN"

text \<open>Python's \<^verbatim>\<open><=\<close> on floats.\<close>

fun fle :: "pyfloat \<Rightarrow> pyfloat \<Rightarrow> bool" where
  "fle (Fin a) (Fin b) \<longleftrightarrow> a \<le> b"
| "fle NaN y \<longleftrightarrow> False"
| "fle x NaN \<longleftrightarrow> False"
| "fle NInf y \<longleftrightarrow> True"
| "fle x PInf \<longleftrightarrow> True"
| "fle x y \<longleftrightarrow> False"

text \<open>
  The sums of \<^verbatim>\<open>optimal_lineup_score\<close> as Python computes them. \<^verbatim>\<open>score\<close> starts at the
  integer 0 and adds the points of the starters in the order of the roster;
  \<^verbatim>\<open>best_score\<close> starts at 0 and adds, slot after slot in the order of \<^verbatim>\<open>best_lineup\<close>,
  the \<^verbatim>\<open>sum\<close> of the points in the slot, itself an addition from left to right that
  starts at 0. The division raises when the best score is zero.
\<close>

definition float_add_score :: "player \<Rightarrow> pyfloat \<Rightarrow> pyfloat" where
  "float_add_score p score =
     (if slot_position p \<notin> set [''BE'', ''IR''] then fadd score (Fin (points p)) else score)"

definition float_actual_score :: "player list \<Rightarrow> pyfloat" where
  "float_actual_score lineup = fold float_add_score lineup (Fin 0)"

definition float_sum :: "rat list \<Rightarrow> pyfloat" where
  "float_sum xs = fold (\<lambda>x s. fadd s (Fin x)) xs (Fin 0)"

definition float_lineup_total :: "pool \<Rightarrow> pyfloat" where
  "float_lineup_total best_lineup =
     fold (\<lambda>entry best_score. fadd best_score (float_sum (map snd (snd entry))))
       best_lineup (Fin 0)"

definition float_best_score_of :: "player list \<Rightarrow> starter_counts \<Rightarrow> pyfloat" where
  "float_best_score_of lineup starter_counts =
     float_lineup_total (best_lineup_of lineup starter_counts)"

definition float_optimal_lineup_score ::
  "player list \<Rightarrow> starter_counts \<Rightarrow> py_error + (pyfloat \<times> pyfloat \<times> pyfloat \<times> pyfloat)" where
  "float_optimal_lineup_score lineup starter_counts =
     (let score = float_actual_score lineup;
          best_score = float_best_score_of lineup starter_counts
      in if best_score = Fin 0 then Inl ZeroDivisionError
         else Inr (best_score, score, fsub best_score score,
                   fmul (fdiv score best_score) (Fin 100)))"

section \<open>Notions of the specification\<close>

text \<open>The tally of a lineup in the words of the specification: the number of starters
  per slot, a slot without starter having no entry; and the total number of starters.\<close>

definition starters_at :: "player list \<Rightarrow> string \<Rightarrow> nat" where
  "starters_at lineup s = length (filter (\<lambda>p. is_starter p \<and> slot_position p = s) lineup)"

definition starter_total :: "player list \<Rightarrow> nat" where
  "starter_total lineup = length (filter is_starter lineup)"

definition tally_spec :: "player list \<Rightarrow> string \<Rightarrow> nat option" where
  "tally_spec lineup s = (if starters_at lineup s = 0 then None else Some (starters_at lineup s))"

text \<open>The dictionary that a lineup loop of \<^verbatim>\<open>get_starter_counts\<close> builds.\<close>

definition starters_of :: "player list \<Rightarrow> starter_counts" where
  "starters_of lineup = fst (fold count_starter lineup ([], 0))"

definition count_at :: "starter_counts \<Rightarrow> string \<Rightarrow> nat" where
  "count_at d s = (case map_of d s of None \<Rightarrow> 0 | Some n \<Rightarrow> n)"

text \<open>Two roster entries that agree on everything but the projection and the
  share of the game played.\<close>

definition same_realized :: "player \<Rightarrow> player \<Rightarrow> bool" where
  "same_realized p q \<longleftrightarrow>
     name p = name q \<and> position p = position q \<and>
     slot_position p = slot_position q \<and> points p = points q"

text \<open>A roster entry for the examples: projection 0, game played in full.\<close>

definition mk_player :: "string \<Rightarrow> string \<Rightarrow> string \<Rightarrow> rat \<Rightarrow> player" where
  "mk_player n pos slot pts =
     \<lparr>name = n, position = pos, slot_position = slot, points = pts,
      projected_points = 0, game_played = 100\<rparr>"

text \<open>The same lineup is legal for a configuration when every starter sits in a slot of
  the configuration for which its position is eligible, and no slot holds more starters
  than its count. A slot named OP or DP takes its fixed positions, a composite slot the
  positions its name encodes, any other slot the position of its own name.\<close>

definition eligible :: "string \<Rightarrow> string \<Rightarrow> bool" where
  "eligible pos slot =
     (if slot = ''OP'' then pos \<in> set op_flex
      else if slot = ''DP'' then pos \<in> set dp_flex
      else if is_flex slot then pos \<in> set (str_split CHR ''/'' slot)
      else pos = slot)"

definition legal_lineup :: "player list \<Rightarrow> starter_counts \<Rightarrow> bool" where
  "legal_lineup lineup sc \<longleftrightarrow>
     list_all (\<lambda>p. is_starter p \<longrightarrow>
                 slot_position p \<in> fst ` set sc \<and> eligible (position p) (slot_position p)) lineup \<and>
     list_all (\<lambda>s. starters_at lineup (fst s) \<le> snd s) sc"

text \<open>A key of the configuration that the code treats as a flex slot.\<close>

definition flex_key :: "string \<Rightarrow> bool" where
  "flex_key k \<longleftrightarrow> is_flex k \<or> k = ''OP'' \<or> k = ''DP''"

text \<open>The position lists of the flex slots in the order in which \<^verbatim>\<open>optimal_lineup_score\<close>
  fills them: the composite slots in the order of the configuration, then OP, then DP.
  The configuration is nested when the positions of every flex slot are disjoint from,
  or contained in, those of every flex slot filled after it.\<close>

definition flex_lists :: "starter_counts \<Rightarrow> string list list" where
  "flex_lists sc =
     map (\<lambda>s. str_split CHR ''/'' (fst s)) (filter (\<lambda>s. is_flex (fst s)) sc) @
     (case map_of sc ''OP'' of Some n \<Rightarrow> [op_flex] | None \<Rightarrow> []) @
     (case map_of sc ''DP'' of Some n \<Rightarrow> [dp_flex] | None \<Rightarrow> [])"

fun nested_lists :: "string list list \<Rightarrow> bool" where
  "nested_lists [] = True"
| "nested_lists (F # Fs) =
     (list_all (\<lambda>F'. list_all (\<lambda>x. x \<notin> set F') F \<or> list_all (\<lambda>x. x \<in> set F') F) Fs \<and>
      nested_lists Fs)"

definition nested_config :: "starter_counts \<Rightarrow> bool" where
  "nested_config sc = nested_lists (flex_lists sc)"

text \<open>The players of a roster with a given position, as the first loop files them.\<close>

definition roster_nv :: "player list \<Rightarrow> (string \<times> rat) list" where
  "roster_nv lineup = map (\<lambda>p. (name p, points p)) lineup"

definition roster_bucket :: "player list \<Rightarrow> string \<Rightarrow> scores" where
  "roster_bucket lineup pos = roster_nv (filter (\<lambda>p. position p = pos) lineup)"

text \<open>A rational that is a double, and a roster none of whose sums of points is
  rounded: the sum of the points of any of its players, taken in the order of the
  roster, is a double.\<close>

definition is_double :: "rat \<Rightarrow> bool" where
  "is_double x \<longleftrightarrow> round_double x = Fin x"

definition exact_sums :: "player list \<Rightarrow> bool" where
  "exact_sums lineup \<longleftrightarrow> list_all (\<lambda>xs. is_double (sum_list xs)) (subseqs (map points lineup))"

text \<open>The pool of remaining players when the third loop has gone through the keys
  \<open>seen\<close> of the configuration (all of them when it reaches the OP slot), and when the
  DP slot is reached.\<close>

definition pool_before_flex :: "player list \<Rightarrow> starter_counts \<Rightarrow> starter_counts \<Rightarrow> pool" where
  "pool_before_flex lineup starter_counts seen =
     fst (fold fill_flex seen
            (fold fill_position starter_counts (position_players_of lineup, [])))"

definition pool_before_DP :: "player list \<Rightarrow> starter_counts \<Rightarrow> pool" where
  "pool_before_DP lineup starter_counts =
     fst (fill_named ''OP'' op_flex starter_counts
            (fold fill_flex starter_counts
               (fold fill_position starter_counts (position_players_of lineup, []))))"

text \<open>The names in the best lineup, slot after slot.\<close>

definition assigned_names :: "pool \<Rightarrow> string list" where
  "assigned_names best_lineup = concat (map (\<lambda>e. map fst (snd e)) best_lineup)"

section \<open>Notions of the proofs\<close>

text \<open>
  The content of a pool (or of a best lineup) as a list of entries: the key of the
  bucket, the name and the points. A pool is well formed when its keys are distinct and
  no name occurs twice in it.
\<close>

definition pool_entries :: "pool \<Rightarrow> (string \<times> string \<times> rat) list" where
  "pool_entries pp = concat (map (\<lambda>e. map (Pair (fst e)) (snd e)) pp)"

definition wf_pool :: "pool \<Rightarrow> bool" where
  "wf_pool pp \<longleftrightarrow> distinct (map fst pp) \<and> distinct (map (\<lambda>e. fst (snd e)) (pool_entries pp))"

definition entry_of :: "player \<Rightarrow> string \<times> string \<times> rat" where
  "entry_of p = (position p, name p, points p)"

definition pos_in :: "string list \<Rightarrow> (string \<times> string \<times> rat) set" where
  "pos_in F = {e. fst e \<in> set F}"

definition val :: "string \<times> string \<times> rat \<Rightarrow> rat" where
  "val e = snd (snd e)"

definition bucket_of :: "pool \<Rightarrow> string \<Rightarrow> scores" where
  "bucket_of pp k = (case map_of pp k of Some b \<Rightarrow> b | None \<Rightarrow> [])"

text \<open>The invariant of the loops of the allocation: the pool is well formed, and the
  entries of the pool and of the best lineup together are entries of the roster, each at
  most once.\<close>

definition alloc_inv :: "player list \<Rightarrow> pool \<times> pool \<Rightarrow> bool" where
  "alloc_inv lineup st \<longleftrightarrow>
     wf_pool (fst st) \<and>
     mset (map snd (pool_entries (fst st))) + mset (map snd (pool_entries (snd st)))
       \<subseteq># mset (roster_nv lineup)"

text \<open>
  Filling slots greedily, over any set of items with values: a slot is a label, the set
  of eligible items and a count; \<open>G\<close> is a best choice of \<open>c\<close> items of \<open>C\<close> when it has
  \<open>c\<close> items (all of \<open>C\<close> if there are fewer) and none left behind is worth more than
  one chosen. A run fills the slots in order, each from what the earlier ones left, and
  yields the total value and the items left over.
\<close>

definition is_top :: "('a \<Rightarrow> rat) \<Rightarrow> 'a set \<Rightarrow> nat \<Rightarrow> 'a set \<Rightarrow> bool" where
  "is_top v C c G \<longleftrightarrow> G \<subseteq> C \<and> card G = min c (card C) \<and> (\<forall>x\<in>G. \<forall>y\<in>C - G. v y \<le> v x)"




fun nested :: "('l \<times> 'a set \<times> nat) list \<Rightarrow> bool" where
  "nested [] = True"
| "nested (s # slots) =
     ((\<forall>s'\<in>set slots. fst (snd s) \<inter> fst (snd s') = {} \<or> fst (snd s) \<subseteq> fst (snd s')) \<and> nested slots)"






section \<open>Evaluation\<close>

lemmas eval_defs =
  allocate_def position_players_of_def place_player_def fill_position_def sorted_desc_def
  fill_flex_def is_flex_def best_flex_def flex_pool_def dict_union_def remove_best_def
  fill_named_def best_lineup_of_def best_score_of_def lineup_total_def op_flex_def dp_flex_def
  actual_score_def add_score_def optimal_lineup_score_def mk_player_def
  sublist_code prefix_code

lemmas spec_defs =
  legal_lineup_def eligible_def starters_at_def is_starter_def nested_config_def
  flex_lists_def flex_key_def

lemma optimal_lineup_score_cases:
  "optimal_lineup_score lineup sc =
     (if best_score_of lineup sc = 0 then Inl ZeroDivisionError
      else Inr (best_score_of lineup sc, actual_score lineup,
                best_score_of lineup sc - actual_score lineup,
                actual_score lineup / best_score_of lineup sc * 100))"
  by (simp add: optimal_lineup_score_def Let_def)

section \<open>Rounding to a double\<close>

lemma ilog2_bounds:
  assumes "0 < x"
  shows "2 powi (ilog2 x) \<le> x" and "x < 2 powi (ilog2 x + 1)"
proof -
  have "2 powi (ilog2 x) \<le> x \<and> x < 2 powi (ilog2 x + 1)"
  proof (cases "1 \<le> x")
    case True
    define n where "n = \<lfloor>x\<rfloor>"
    have n1: "1 \<le> n" using True by (simp add: n_def le_floor_iff)
    then have n0: "0 < n" by simp
    have b1: "1 \<le> bitlen n" using n0 by (simp add: bitlen_alt_def)
    from bitlen_bounds[OF n0] have lo: "2 ^ nat (bitlen n - 1) \<le> n" and hi: "n < 2 ^ nat (bitlen n)"
      by auto
    have e: "ilog2 x = bitlen n - 1" using True by (simp add: ilog2_def n_def)
    have "(2::rat) powi (bitlen n - 1) = of_int (2 ^ nat (bitlen n - 1))"
      using b1 by (simp add: power_int_def)
    also have "\<dots> \<le> of_int n" using lo by (simp only: of_int_le_iff)
    also have "\<dots> \<le> x" by (simp add: n_def)
    finally have 1: "2 powi (ilog2 x) \<le> x" by (simp add: e)
    have "n + 1 \<le> 2 ^ nat (bitlen n)" using hi by simp
    then have "(of_int (n + 1) :: rat) \<le> of_int (2 ^ nat (bitlen n))" by (simp only: of_int_le_iff)
    moreover have "x < of_int (n + 1)" using floor_correct[of x] by (simp add: n_def)
    ultimately have "x < of_int (2 ^ nat (bitlen n))" by simp
    also have "\<dots> = 2 powi (bitlen n)" using b1 by (simp add: power_int_def)
    finally have 2: "x < 2 powi (ilog2 x + 1)" by (simp add: e)
    from 1 2 show ?thesis ..
  next
    case False
    define y where "y = 1 / x"
    define c where "c = \<lceil>y\<rceil>"
    have y1: "1 < y" using False assms by (simp add: y_def)
    have c2: "2 \<le> c" using y1 by (simp add: c_def le_ceiling_iff)
    then have c0: "0 < c - 1" by simp
    let ?b = "bitlen (c - 1)"
    have b1: "1 \<le> ?b" using c0 by (simp add: bitlen_alt_def)
    from bitlen_bounds[OF c0] have lo: "2 ^ nat (?b - 1) \<le> c - 1" and hi: "c - 1 < 2 ^ nat ?b"
      by auto
    have e: "ilog2 x = - ?b" using False by (simp add: ilog2_def c_def y_def)
    have cb: "c \<le> 2 ^ nat ?b" using hi by simp
    have "y \<le> of_int c" by (simp add: c_def)
    also have "(of_int c :: rat) \<le> of_int (2 ^ nat ?b)" using cb by (simp only: of_int_le_iff)
    also have "\<dots> = 2 ^ nat ?b" by simp
    finally have "y \<le> 2 ^ nat ?b" .
    then have "1 / x \<le> 2 ^ nat ?b" by (simp add: y_def)
    then have "1 / 2 ^ nat ?b \<le> x" using assms
      by (simp add: field_simps)
    moreover have "(2::rat) powi (- ?b) = 1 / 2 ^ nat ?b"
      using b1 by (simp add: power_int_def field_simps)
    ultimately have 1: "2 powi (ilog2 x) \<le> x" by (simp add: e)
    have "(2::rat) ^ nat (?b - 1) = of_int (2 ^ nat (?b - 1))" by simp
    also have "\<dots> \<le> of_int (c - 1)" using lo by (simp only: of_int_le_iff)
    also have "\<dots> < y" using ceiling_correct[of y] by (simp add: c_def)
    finally have "2 ^ nat (?b - 1) < y" .
    then have "2 ^ nat (?b - 1) < 1 / x" by (simp add: y_def)
    then have "x < 1 / 2 ^ nat (?b - 1)" using assms by (simp add: field_simps)
    moreover have "(2::rat) powi (- ?b + 1) = 1 / 2 ^ nat (?b - 1)"
    proof -
      have "- ?b + 1 = - (?b - 1)" by simp
      then have "(2::rat) powi (- ?b + 1) = 2 powi (- (?b - 1))" by simp
      also have "\<dots> = inverse (2 powi (?b - 1))" by (rule power_int_minus)
      also have "\<dots> = 1 / 2 ^ nat (?b - 1)" using b1 by (simp add: power_int_def field_simps)
      finally show ?thesis .
    qed
    ultimately have 2: "x < 2 powi (ilog2 x + 1)" by (simp add: e)
    from 1 2 show ?thesis ..
  qed
  then show "2 powi (ilog2 x) \<le> x" and "x < 2 powi (ilog2 x + 1)" by simp_all
qed

lemma powi2_less_imp:
  assumes "(2::rat) powi a < 2 powi b"
  shows "a < b"
proof (rule ccontr)
  assume "\<not> a < b"
  then have "b \<le> a" by simp
  then have "(2::rat) powi b \<le> 2 powi a" by (intro power_int_increasing) simp_all
  with assms show False by simp
qed

lemma ilog2_unique:
  assumes "0 < x" "2 powi e \<le> x" "x < 2 powi (e + 1)"
  shows "ilog2 x = e"
proof -
  note b = ilog2_bounds[OF assms(1)]
  have "(2::rat) powi (ilog2 x) < 2 powi (e + 1)" using b(1) assms(3) by (rule le_less_trans)
  then have 1: "ilog2 x < e + 1" by (rule powi2_less_imp)
  have "(2::rat) powi e < 2 powi (ilog2 x + 1)" using assms(2) b(2) by (rule le_less_trans)
  then have 2: "e < ilog2 x + 1" by (rule powi2_less_imp)
  from 1 2 show ?thesis by simp
qed

lemma round_half_even_of_int [simp]: "round_half_even (of_int k) = k"
  by (simp add: round_half_even_def)

lemma powi2_pos [simp]: "0 < (2::rat) powi k"
  by (simp add: power_int_def)

lemma round_double_exact:
  assumes x: "x = of_int m * 2 powi k" and m: "\<bar>m\<bar> < 2 ^ 53" and k: "- 1074 \<le> k"
    and r: "\<bar>x\<bar> < 2 ^ 1024"
  shows "round_double x = Fin x"
proof (cases "x = 0")
  case True
  then show ?thesis by (simp add: round_double_def)
next
  case False
  define a where "a = \<bar>x\<bar>"
  define e where "e = max (ilog2 a) (- 1022)"
  define j where "j = k - e + 52"
  have a0: "0 < a" using False by (simp add: a_def)
  have am: "a = of_int \<bar>m\<bar> * 2 powi k"
    by (simp add: a_def x abs_mult)
  have j0: "0 \<le> j"
  proof (cases "ilog2 a \<le> - 1022")
    case True
    then have "e = - 1022" by (simp add: e_def)
    then show ?thesis using k by (simp add: j_def)
  next
    case False
    then have ee: "e = ilog2 a" by (simp add: e_def)
    have "(of_int \<bar>m\<bar> :: rat) < of_int (2 ^ 53)" using m by (simp only: of_int_less_iff)
    then have "(of_int \<bar>m\<bar> :: rat) < 2 powi 53" by simp
    then have "a < 2 powi 53 * 2 powi k" unfolding am by (intro mult_strict_right_mono) simp_all
    also have "\<dots> = 2 powi (53 + k)" by (simp add: power_int_add)
    finally have lt: "a < 2 powi (53 + k)" .
    have "(2::rat) powi (ilog2 a) < 2 powi (53 + k)"
      using ilog2_bounds(1)[OF a0] lt by (rule le_less_trans)
    then have "ilog2 a < 53 + k" by (rule powi2_less_imp)
    then show ?thesis by (simp add: j_def ee)
  qed
  have "a / 2 powi (e - 52) = of_int \<bar>m\<bar> * (2 powi k / 2 powi (e - 52))"
    by (simp add: am)
  also have "2 powi k / 2 powi (e - 52) = (2::rat) powi (k - (e - 52))"
    by (rule power_int_diff[symmetric]) simp
  also have "k - (e - 52) = j" by (simp add: j_def)
  also have "(2::rat) powi j = of_int (2 ^ nat j)" using j0 by (simp add: power_int_def)
  finally have q: "a / 2 powi (e - 52) = of_int (\<bar>m\<bar> * 2 ^ nat j)" by simp
  have y: "of_int (round_half_even (a / 2 powi (e - 52))) * 2 powi (e - 52) = a"
  proof -
    have "of_int (round_half_even (a / 2 powi (e - 52))) * 2 powi (e - 52) =
        (a / 2 powi (e - 52)) * 2 powi (e - 52)"
      unfolding q round_half_even_of_int ..
    also have "\<dots> = a" by simp
    finally show ?thesis .
  qed
  have na: "\<not> 2 ^ 1024 \<le> a" using r by (simp add: a_def)
  have sx: "sgn x * a = x" by (simp add: a_def sgn_mult_abs)
  show ?thesis
    unfolding round_double_def Let_def a_def[symmetric] e_def[symmetric] y
    using False na sx by simp
qed

lemma round_double_of_int:
  assumes "\<bar>n\<bar> < 2 ^ 53"
  shows "round_double (of_int n) = Fin (of_int n)"
proof -
  have "\<bar>of_int n :: rat\<bar> = of_int \<bar>n\<bar>" by simp
  also have "\<dots> < of_int (2 ^ 53)" using assms by (simp only: of_int_less_iff)
  also have "\<dots> < 2 ^ 1024" by simp
  finally have r: "\<bar>of_int n :: rat\<bar> < 2 ^ 1024" .
  show ?thesis
    by (rule round_double_exact[where m = n and k = 0]) (use assms r in simp_all)
qed

lemma round_double_numeral:
  "numeral w < (2::int) ^ 53 \<Longrightarrow> round_double (numeral w) = Fin (numeral w)"
  using round_double_of_int[of "numeral w"] by simp

lemma round_double_neg_numeral:
  "numeral w < (2::int) ^ 53 \<Longrightarrow> round_double (- numeral w) = Fin (- numeral w)"
  using round_double_of_int[of "- numeral w"] by simp

lemma round_double_0 [simp]: "round_double 0 = Fin 0"
  by (simp add: round_double_def)

lemma round_double_1 [simp]: "round_double 1 = Fin 1"
  using round_double_of_int[of 1] by simp

lemma round_half_even_le:
  assumes "q \<le> of_int n"
  shows "round_half_even q \<le> n"
proof -
  have f: "\<lfloor>q\<rfloor> \<le> n" using assms by (simp add: floor_le_iff) 
  show ?thesis
  proof (cases "q = of_int \<lfloor>q\<rfloor>")
    case True
    then have "round_half_even q = \<lfloor>q\<rfloor>" by (simp add: round_half_even_def Let_def)
    with f show ?thesis by simp
  next
    case False
    then have "of_int \<lfloor>q\<rfloor> \<noteq> q" by (simp add: eq_commute)
    with of_int_floor_le[of q] have "of_int \<lfloor>q\<rfloor> < q" by (rule le_neq_trans)
    then have "of_int \<lfloor>q\<rfloor> < (of_int n :: rat)" using assms by simp
    then have "\<lfloor>q\<rfloor> < n" by (simp only: of_int_less_iff)
    moreover have "round_half_even q \<le> \<lfloor>q\<rfloor> + 1" by (simp add: round_half_even_def Let_def)
    ultimately show ?thesis by simp
  qed
qed

lemma round_double_at:
  assumes "0 < x" "2 powi e \<le> x" "x < 2 powi (e + 1)" "- 1022 \<le> e" "e \<le> 1022"
  shows "round_double x =
           Fin (of_int (round_half_even (x / 2 powi (e - 52))) * 2 powi (e - 52))"
proof -
  let ?u = "(2::rat) powi (e - 52)"
  let ?m = "round_half_even (x / ?u)"
  have il: "ilog2 x = e" using assms(1-3) by (rule ilog2_unique)
  have mx: "max (ilog2 x) (- 1022) = e" using assms(4) il by simp
  have "x / ?u < 2 powi (e + 1) / ?u" using assms(3) by (simp add: divide_strict_right_mono)
  also have "\<dots> = 2 powi 53" by (simp add: power_int_diff[symmetric])
  finally have "x / ?u \<le> of_int (2 ^ 53)" by simp
  then have "?m \<le> 2 ^ 53" by (rule round_half_even_le)
  then have "(of_int ?m :: rat) \<le> of_int (2 ^ 53)" by (simp only: of_int_le_iff)
  then have "of_int ?m * ?u \<le> of_int (2 ^ 53) * ?u" by (intro mult_right_mono) simp_all
  also have "\<dots> = 2 powi 53 * ?u" by simp
  also have "\<dots> = 2 powi (e + 1)"
  proof -
    have "(2::rat) powi 53 * ?u = 2 powi (53 + (e - 52))" by (rule power_int_add[symmetric]) simp
    moreover have "53 + (e - 52) = e + 1" by simp
    ultimately show ?thesis by (simp only:)
  qed
  also have "\<dots> \<le> 2 powi 1023" using assms(5) by (intro power_int_increasing) simp_all
  also have "\<dots> < 2 ^ 1024" by simp
  finally have no: "\<not> 2 ^ 1024 \<le> of_int ?m * ?u" by simp
  have x0: "x \<noteq> 0" "\<bar>x\<bar> = x" "sgn x = 1" using assms(1) by simp_all
  show ?thesis
    unfolding round_double_def Let_def x0(2) mx using x0(1,3) no assms(1) by simp
qed


lemma floor_divide_numeral_rat [simp]:
  "\<lfloor>numeral a / numeral b :: rat\<rfloor> = numeral a div numeral b"
  by (metis floor_divide_of_int_eq of_int_numeral)

section \<open>Starter counts: the tally of the larger side\<close>

lemma count_starter_snd:
  "snd (fold count_starter l (d, n)) = n + starter_total l"
  by (induction l arbitrary: d n)
     (auto simp: count_starter_def starter_total_def split: option.splits)

lemma count_starter_fst:
  "map_of (fst (fold count_starter l (d, n))) s =
     (if starters_at l s = 0 then map_of d s else Some (count_at d s + starters_at l s))"
proof (induction l arbitrary: d n)
  case Nil
  then show ?case by (simp add: starters_at_def)
next
  case (Cons p l)
  show ?case
  proof (cases "is_starter p")
    case False
    then have "count_starter p (d, n) = (d, n)"
      by (simp add: count_starter_def)
    then show ?thesis using Cons[of d n] False by (simp add: starters_at_def)
  next
    case True
    define d' where "d' = AList.update (slot_position p) (count_at d (slot_position p) + 1) d"
    have step: "count_starter p (d, n) = (d', n + 1)"
      using True by (simp add: count_starter_def d'_def count_at_def split: option.splits)
    have m: "map_of d' = (map_of d)(slot_position p \<mapsto> count_at d (slot_position p) + 1)"
      by (simp add: d'_def AList.update_conv')
    have c: "count_at d' s = (if s = slot_position p then count_at d s + 1 else count_at d s)"
      by (simp add: count_at_def m)
    have st: "starters_at (p # l) s =
        (if s = slot_position p then starters_at l s + 1 else starters_at l s)"
      using True by (auto simp: starters_at_def)
    show ?thesis
      using Cons[of d' "n + 1"] by (simp add: step m c st count_at_def)
  qed
qed

lemma starters_of_tally: "map_of (starters_of l) = tally_spec l"
  by (rule ext) (simp add: starters_of_def count_starter_fst tally_spec_def count_at_def)

lemma get_starter_counts_eq:
  "get_starter_counts (i # rest) =
     Inr (Some (if starter_total (away_lineup i) > starter_total (home_lineup i)
                then starters_of (away_lineup i) else starters_of (home_lineup i)))"
proof -
  obtain hs hc where h: "fold count_starter (home_lineup i) ([], 0) = (hs, hc)"
    by (cases "fold count_starter (home_lineup i) ([], 0)")
  obtain as ac where a: "fold count_starter (away_lineup i) ([], 0) = (as, ac)"
    by (cases "fold count_starter (away_lineup i) ([], 0)")
  have hc: "hc = starter_total (home_lineup i)"
    using count_starter_snd[of "home_lineup i" "[]" 0] h by simp
  have ac: "ac = starter_total (away_lineup i)"
    using count_starter_snd[of "away_lineup i" "[]" 0] a by simp
  have hs: "starters_of (home_lineup i) = hs"
    by (simp add: starters_of_def h)
  have as: "starters_of (away_lineup i) = as"
    by (simp add: starters_of_def a)
  have "get_starter_counts (i # rest) = (if ac > hc then Inr (Some as) else Inr (Some hs))"
    by (simp add: h a)
  then show ?thesis
    unfolding hs as hc ac by simp
qed

text \<open>
  Claim C3. On the first matchup of the week, \<^verbatim>\<open>get_starter_counts\<close> returns the
  dictionary tallied on the side with more starters (the home side on a tie), and that
  dictionary maps every slot to the number of starters of that side in the slot. In
  particular, with 9 starters at home and 10 away the result is the tally of the away side.
\<close>

theorem get_starter_counts_larger_side:
  "\<exists>r. get_starter_counts (i # rest) = Inr (Some r) \<and>
       r = starters_of (if starter_total (away_lineup i) > starter_total (home_lineup i)
                        then away_lineup i else home_lineup i) \<and>
       map_of r = tally_spec (if starter_total (away_lineup i) > starter_total (home_lineup i)
                              then away_lineup i else home_lineup i) \<and>
       (starter_total (home_lineup i) = 9 \<and> starter_total (away_lineup i) = 10 \<longrightarrow>
          r = starters_of (away_lineup i) \<and> map_of r = tally_spec (away_lineup i))"
  by (simp add: get_starter_counts_eq starters_of_tally del: get_starter_counts.simps)

theorem get_starter_counts_larger_side_witness:
  "starter_total
     [mk_player ''h1'' ''QB'' ''QB'' 20, mk_player ''h2'' ''RB'' ''RB'' 11,
      mk_player ''h3'' ''RB'' ''RB'' 9, mk_player ''h4'' ''WR'' ''WR'' 14,
      mk_player ''h5'' ''WR'' ''WR'' 7, mk_player ''h6'' ''TE'' ''TE'' 6,
      mk_player ''h7'' ''WR'' ''RB/WR/TE'' 5, mk_player ''h8'' ''D/ST'' ''D/ST'' 8,
      mk_player ''h9'' ''K'' ''K'' 9, mk_player ''h10'' ''QB'' ''BE'' 17] = 9 \<and>
   starter_total
     [mk_player ''a1'' ''QB'' ''QB'' 18, mk_player ''a2'' ''RB'' ''RB'' 12,
      mk_player ''a3'' ''RB'' ''RB'' 4, mk_player ''a4'' ''WR'' ''WR'' 13,
      mk_player ''a5'' ''WR'' ''WR'' 3, mk_player ''a6'' ''TE'' ''TE'' 2,
      mk_player ''a7'' ''RB'' ''RB/WR/TE'' 10, mk_player ''a8'' ''D/ST'' ''D/ST'' 1,
      mk_player ''a9'' ''K'' ''K'' 7, mk_player ''a10'' ''QB'' ''OP'' 21] = 10 \<and>
   get_starter_counts
     [\<lparr>home_lineup =
        [mk_player ''h1'' ''QB'' ''QB'' 20, mk_player ''h2'' ''RB'' ''RB'' 11,
         mk_player ''h3'' ''RB'' ''RB'' 9, mk_player ''h4'' ''WR'' ''WR'' 14,
         mk_player ''h5'' ''WR'' ''WR'' 7, mk_player ''h6'' ''TE'' ''TE'' 6,
         mk_player ''h7'' ''WR'' ''RB/WR/TE'' 5, mk_player ''h8'' ''D/ST'' ''D/ST'' 8,
         mk_player ''h9'' ''K'' ''K'' 9, mk_player ''h10'' ''QB'' ''BE'' 17],
       away_lineup =
        [mk_player ''a1'' ''QB'' ''QB'' 18, mk_player ''a2'' ''RB'' ''RB'' 12,
         mk_player ''a3'' ''RB'' ''RB'' 4, mk_player ''a4'' ''WR'' ''WR'' 13,
         mk_player ''a5'' ''WR'' ''WR'' 3, mk_player ''a6'' ''TE'' ''TE'' 2,
         mk_player ''a7'' ''RB'' ''RB/WR/TE'' 10, mk_player ''a8'' ''D/ST'' ''D/ST'' 1,
         mk_player ''a9'' ''K'' ''K'' 7, mk_player ''a10'' ''QB'' ''OP'' 21]\<rparr>] =
     Inr (Some [(''QB'', 1), (''RB'', 2), (''WR'', 2), (''TE'', 1), (''RB/WR/TE'', 1),
                (''D/ST'', 1), (''K'', 1), (''OP'', 1)])"
  using get_starter_counts_larger_side
    [of "\<lparr>home_lineup =
        [mk_player ''h1'' ''QB'' ''QB'' 20, mk_player ''h2'' ''RB'' ''RB'' 11,
         mk_player ''h3'' ''RB'' ''RB'' 9, mk_player ''h4'' ''WR'' ''WR'' 14,
         mk_player ''h5'' ''WR'' ''WR'' 7, mk_player ''h6'' ''TE'' ''TE'' 6,
         mk_player ''h7'' ''WR'' ''RB/WR/TE'' 5, mk_player ''h8'' ''D/ST'' ''D/ST'' 8,
         mk_player ''h9'' ''K'' ''K'' 9, mk_player ''h10'' ''QB'' ''BE'' 17],
       away_lineup =
        [mk_player ''a1'' ''QB'' ''QB'' 18, mk_player ''a2'' ''RB'' ''RB'' 12,
         mk_player ''a3'' ''RB'' ''RB'' 4, mk_player ''a4'' ''WR'' ''WR'' 13,
         mk_player ''a5'' ''WR'' ''WR'' 3, mk_player ''a6'' ''TE'' ''TE'' 2,
         mk_player ''a7'' ''RB'' ''RB/WR/TE'' 10, mk_player ''a8'' ''D/ST'' ''D/ST'' 1,
         mk_player ''a9'' ''K'' ''K'' 7, mk_player ''a10'' ''QB'' ''OP'' 21]\<rparr>" "[]"]
  by (simp add: starter_total_def is_starter_def mk_player_def starters_of_def count_starter_def)

section \<open>Starter counts: a matchup without players\<close>

text \<open>
  Claim C9, as amended. When neither lineup of the first matchup contains a player,
  \<^verbatim>\<open>get_starter_counts\<close> returns the empty configuration; it raises nothing.
\<close>

theorem get_starter_counts_no_players:
  "home_lineup i = [] \<Longrightarrow> away_lineup i = [] \<Longrightarrow>
     get_starter_counts (i # rest) = Inr (Some [])"
  by simp

theorem get_starter_counts_no_players_witness:
  "home_lineup \<lparr>home_lineup = [], away_lineup = []\<rparr> = [] \<and>
   away_lineup \<lparr>home_lineup = [], away_lineup = []\<rparr> = [] \<and>
   get_starter_counts
     [\<lparr>home_lineup = [], away_lineup = []\<rparr>,
      \<lparr>home_lineup = [mk_player ''h1'' ''QB'' ''QB'' 20], away_lineup = []\<rparr>] = Inr (Some [])"
  using get_starter_counts_no_players
    [of "\<lparr>home_lineup = [], away_lineup = []\<rparr>"
        "[\<lparr>home_lineup = [mk_player ''h1'' ''QB'' ''QB'' 20], away_lineup = []\<rparr>]"]
  by simp

text \<open>The claim as stated fails: on a matchup of two empty lineups the call returns
  normally, with the empty dictionary.\<close>

theorem get_starter_counts_empty_matchup_returns:
  "\<not> isl (get_starter_counts [\<lparr>home_lineup = [], away_lineup = []\<rparr>]) \<and>
   get_starter_counts [\<lparr>home_lineup = [], away_lineup = []\<rparr>] = Inr (Some [])"
  by simp

section \<open>The percentage when the best score is zero\<close>

text \<open>
  Claim C5. When the best score is zero, \<^verbatim>\<open>optimal_lineup_score\<close> raises (the
  \<^verbatim>\<open>ZeroDivisionError\<close> of the percentage) and returns no tuple.
\<close>

theorem zero_best_score_raises:
  "best_score_of lineup starter_counts = 0 \<Longrightarrow>
     optimal_lineup_score lineup starter_counts = Inl ZeroDivisionError"
  by (simp add: optimal_lineup_score_def)

theorem zero_best_score_raises_witness:
  "best_score_of [] [(''QB'', 1), (''RB/WR/TE'', 1)] = 0 \<and>
   optimal_lineup_score [] [(''QB'', 1), (''RB/WR/TE'', 1)] = Inl ZeroDivisionError"
proof -
  have h: "best_score_of [] [(''QB'', 1), (''RB/WR/TE'', 1)] = 0"
    by (simp add: eval_defs)
  show ?thesis
    using h zero_best_score_raises [OF h] by simp
qed

section \<open>Projections are not read\<close>

lemma place_player_cong: "same_realized p q \<Longrightarrow> place_player p = place_player q"
  by (rule ext) (simp add: place_player_def same_realized_def split: option.splits)

lemma add_score_cong: "same_realized p q \<Longrightarrow> add_score p = add_score q"
  by (rule ext) (simp add: add_score_def same_realized_def)

lemma fold_cong_all2:
  "list_all2 (\<lambda>x y. f x = g y) xs ys \<Longrightarrow> fold f xs s = fold g ys s"
  by (induction xs ys arbitrary: s rule: list_all2_induct) simp_all

text \<open>
  Claim C8. Two rosters that agree, player by player, on name, position, slot and
  points give the same result of \<^verbatim>\<open>optimal_lineup_score\<close>, whatever their projected
  points and shares of game played.
\<close>

theorem projections_ignored:
  assumes "list_all2 same_realized l1 l2"
  shows "optimal_lineup_score l1 sc = optimal_lineup_score l2 sc"
proof -
  have pp: "position_players_of l1 = position_players_of l2"
    unfolding position_players_of_def
    by (rule fold_cong_all2) (rule list_all2_mono[OF assms], simp add: place_player_cong)
  have sc: "actual_score l1 = actual_score l2"
    unfolding actual_score_def
    by (rule fold_cong_all2) (rule list_all2_mono[OF assms], simp add: add_score_cong)
  show ?thesis
    by (simp add: optimal_lineup_score_def best_score_of_def best_lineup_of_def allocate_def pp sc)
qed

theorem projections_ignored_witness:
  "list_all2 same_realized
     [\<lparr>name = ''a'', position = ''QB'', slot_position = ''QB'', points = 12,
       projected_points = 25, game_played = 100\<rparr>,
      \<lparr>name = ''b'', position = ''RB'', slot_position = ''BE'', points = 10,
       projected_points = 3, game_played = 100\<rparr>]
     [\<lparr>name = ''a'', position = ''QB'', slot_position = ''QB'', points = 12,
       projected_points = 1, game_played = 0\<rparr>,
      \<lparr>name = ''b'', position = ''RB'', slot_position = ''BE'', points = 10,
       projected_points = 30, game_played = 50\<rparr>] \<and>
   optimal_lineup_score
     [\<lparr>name = ''a'', position = ''QB'', slot_position = ''QB'', points = 12,
       projected_points = 25, game_played = 100\<rparr>,
      \<lparr>name = ''b'', position = ''RB'', slot_position = ''BE'', points = 10,
       projected_points = 3, game_played = 100\<rparr>] [(''QB'', 1), (''RB'', 1)] =
   optimal_lineup_score
     [\<lparr>name = ''a'', position = ''QB'', slot_position = ''QB'', points = 12,
       projected_points = 1, game_played = 0\<rparr>,
      \<lparr>name = ''b'', position = ''RB'', slot_position = ''BE'', points = 10,
       projected_points = 30, game_played = 50\<rparr>] [(''QB'', 1), (''RB'', 1)]"
proof -
  have h: "list_all2 same_realized
     [\<lparr>name = ''a'', position = ''QB'', slot_position = ''QB'', points = 12,
       projected_points = 25, game_played = 100\<rparr>,
      \<lparr>name = ''b'', position = ''RB'', slot_position = ''BE'', points = 10,
       projected_points = 3, game_played = 100\<rparr>]
     [\<lparr>name = ''a'', position = ''QB'', slot_position = ''QB'', points = 12,
       projected_points = 1, game_played = 0\<rparr>,
      \<lparr>name = ''b'', position = ''RB'', slot_position = ''BE'', points = 10,
       projected_points = 30, game_played = 50\<rparr>]"
    by (simp add: same_realized_def)
  show ?thesis
    using h projections_ignored [OF h, of "[(''QB'', 1), (''RB'', 1)]"] by simp
qed

section \<open>Scenario A\<close>

lemma mset_three:
  assumes "mset l = {#a, b, c#}"
  shows "l \<in> {[a, b, c], [a, c, b], [b, a, c], [b, c, a], [c, a, b], [c, b, a]}"
proof -
  have "length l = 3"
    using assms by (metis size_mset size_add_mset size_empty numeral_3_eq_3)
  then obtain x y z where l: "l = [x, y, z]"
    by (metis length_0_conv length_Suc_conv numeral_3_eq_3)
  show ?thesis
    using assms unfolding l by (auto simp: add_eq_conv_ex)
qed

lemma scenario_a_best_lineup:
  assumes "position qb = ''QB''" "points qb = 12"
    and "position rb1 = ''RB''" "points rb1 = 10"
    and "position rb2 = ''RB''" "points rb2 = 8"
    and "name rb1 \<noteq> name rb2"
    and "mset lineup = {#qb, rb1, rb2#}"
  shows "best_lineup_of lineup [(''QB'', 1), (''RB'', 1), (''RB/WR/TE'', 1)] =
           [(''QB'', [(name qb, 12)]), (''RB'', [(name rb1, 10)]),
            (''RB/WR/TE'', [(name rb2, 8)])]"
proof -
  have "lineup \<in> {[qb, rb1, rb2], [qb, rb2, rb1], [rb1, qb, rb2],
                   [rb1, rb2, qb], [rb2, qb, rb1], [rb2, rb1, qb]}"
    using mset_three[OF assms(8)] by simp
  then show ?thesis
    using assms(1-7)
    by (elim insertE emptyE) (simp_all add: eval_defs)
qed

text \<open>
  Claim C2. A roster of one QB with 12 points and two RBs (of different names) with 10
  and 8 points, in any order and whatever the other fields say, under the counts
  QB 1, RB 1, RB/WR/TE 1: the QB fills the QB slot, the RB with 10 the RB slot and
  the RB with 8 the flex slot, the optimal score is 30, and the tuple returned compares
  the actual score with 30.
\<close>

theorem scenario_a:
  assumes "position qb = ''QB''" "points qb = 12"
    and "position rb1 = ''RB''" "points rb1 = 10"
    and "position rb2 = ''RB''" "points rb2 = 8"
    and "name rb1 \<noteq> name rb2"
    and "mset lineup = {#qb, rb1, rb2#}"
  shows "best_lineup_of lineup [(''QB'', 1), (''RB'', 1), (''RB/WR/TE'', 1)] =
           [(''QB'', [(name qb, 12)]), (''RB'', [(name rb1, 10)]),
            (''RB/WR/TE'', [(name rb2, 8)])] \<and>
         optimal_lineup_score lineup [(''QB'', 1), (''RB'', 1), (''RB/WR/TE'', 1)] =
           Inr (30, actual_score lineup, 30 - actual_score lineup,
                actual_score lineup / 30 * 100)"
  using scenario_a_best_lineup[OF assms]
  by (simp add: optimal_lineup_score_def best_score_of_def lineup_total_def Let_def)

theorem scenario_a_witness:
  "optimal_lineup_score
     [mk_player ''b'' ''RB'' ''RB'' 10, mk_player ''a'' ''QB'' ''QB'' 12,
      mk_player ''c'' ''RB'' ''BE'' 8]
     [(''QB'', 1), (''RB'', 1), (''RB/WR/TE'', 1)] = Inr (30, 22, 8, 220 / 3)"
  using scenario_a
    [of "mk_player ''a'' ''QB'' ''QB'' 12" "mk_player ''b'' ''RB'' ''RB'' 10"
        "mk_player ''c'' ''RB'' ''BE'' 8"
        "[mk_player ''b'' ''RB'' ''RB'' 10, mk_player ''a'' ''QB'' ''QB'' 12,
          mk_player ''c'' ''RB'' ''BE'' 8]"]
  by (simp add: mk_player_def actual_score_def add_score_def)

section \<open>Greedy filling is optimal for nested slots\<close>

















section \<open>Dictionaries\<close>

subsection \<open>Dictionaries\<close>

lemma update_append_new: "k \<notin> fst ` set al \<Longrightarrow> AList.update k v al = al @ [(k, v)]"
  by (induction al) auto

lemma map_of_None_iff: "map_of al k = None \<longleftrightarrow> k \<notin> fst ` set al"
  by (simp add: map_of_eq_None_iff)

lemma sum_list_update_None:
  fixes g :: "'k \<times> 'v \<Rightarrow> 'm::comm_monoid_add"
  shows "map_of al k = None \<Longrightarrow> sum_list (map g (AList.update k v al)) = sum_list (map g al) + g (k, v)"
  by (simp add: update_append_new map_of_None_iff)

lemma sum_list_update_Some:
  fixes g :: "'k \<times> 'v \<Rightarrow> 'm::comm_monoid_add"
  shows "map_of al k = Some v0 \<Longrightarrow>
     sum_list (map g (AList.update k v al)) + g (k, v0) = sum_list (map g al) + g (k, v)"
proof (induction al)
  case Nil
  then show ?case by simp
next
  case (Cons p al)
  show ?case
  proof (cases "fst p = k")
    case True
    with Cons.prems have "p = (k, v0)" by (cases p) simp
    then show ?thesis by (simp add: add.commute add.left_commute)
  next
    case False
    with Cons.prems have "map_of al k = Some v0" by (cases p) simp
    from Cons.IH[OF this] False show ?thesis
      by (simp add: add.assoc)
  qed
qed

lemma update_keys_set: "fst ` set (AList.update k v al) = insert k (fst ` set al)"
  by (simp add: AList.dom_update)

lemma set_update_subset: "set (AList.update k v al) \<subseteq> insert (k, v) (set al)"
  by (induction al) auto

lemma fold_delete_filter:
  "fold (\<lambda>p bucket. AList.delete (fst p) bucket) best bucket =
     filter (\<lambda>e. fst e \<notin> fst ` set best) bucket"
proof (induction best arbitrary: bucket)
  case Nil
  then show ?case by simp
next
  case (Cons b best)
  have "AList.delete (fst b) bucket = filter (\<lambda>e. fst e \<noteq> fst b) bucket"
    by (simp add: AList.delete_eq case_prod_beta' eq_commute)
  then show ?case
    by (simp add: Cons.IH)
qed

lemma remove_best_eq:
  "remove_best best pp = map (\<lambda>e. (fst e, filter (\<lambda>nv. fst nv \<notin> fst ` set best) (snd e))) pp"
  by (simp add: remove_best_def fold_delete_filter)

subsection \<open>Sorting\<close>

lemma mset_sorted_desc [simp]: "mset (sorted_desc d) = mset d"
  by (simp add: sorted_desc_def)

lemma set_sorted_desc [simp]: "set (sorted_desc d) = set d"
  by (simp add: sorted_desc_def)

lemma length_sorted_desc [simp]: "length (sorted_desc d) = length d"
  by (simp add: sorted_desc_def)

lemma distinct_keys_sorted_desc [simp]:
  "distinct (map fst (sorted_desc d)) = distinct (map fst d)"
proof -
  have "mset (map fst (sorted_desc d)) = mset (map fst d)" by simp
  then show ?thesis by (metis mset_eq_imp_distinct_iff)
qed

lemma sorted_desc_top:
  assumes "x \<in> set (take n (sorted_desc d))" "y \<in> set (drop n (sorted_desc d))"
  shows "snd y \<le> snd x"
proof -
  have "sorted (map (\<lambda>item. - snd item) (sorted_desc d))"
    by (simp add: sorted_desc_def)
  then have "sorted_wrt (\<lambda>a b. - snd a \<le> - snd b) (take n (sorted_desc d) @ drop n (sorted_desc d))"
    by (simp add: sorted_map)
  then have "- snd x \<le> - snd y"
    using assms unfolding sorted_wrt_append by blast
  then show ?thesis by simp
qed

lemma take_all_sorted_desc: "length d \<le> n \<Longrightarrow> take n (sorted_desc d) = sorted_desc d"
  by simp

section \<open>Pools\<close>

lemma distinct_mset_subseteq:
  assumes "mset ys \<subseteq># mset xs" "distinct xs"
  shows "distinct ys"
proof -
  have "count (mset ys) a \<le> 1" for a
  proof -
    have "count (mset xs) a \<le> 1"
      using assms(2) by (simp add: distinct_count_atmost_1)
    then show ?thesis
      using mset_subset_eq_count[OF assms(1), of a] by linarith
  qed
  then have "count (mset ys) a = (if a \<in> set ys then 1 else 0)" for a
    by (metis count_mset_0_iff le_antisym less_one linorder_not_le)
  then show ?thesis
    by (simp add: distinct_count_atmost_1)
qed

lemma mset_take_drop: "mset (take n xs) + mset (drop n xs) = mset xs"
  by (metis append_take_drop_id mset_append)

lemma mset_pool_entries:
  "mset (pool_entries pp) = sum_list (map (\<lambda>e. mset (map (Pair (fst e)) (snd e))) pp)"
  by (simp add: pool_entries_def mset_concat comp_def)

lemma mset_entries_update_Some:
  "map_of pp k = Some b \<Longrightarrow>
     mset (pool_entries (AList.update k b' pp)) + mset (map (Pair k) b) =
     mset (pool_entries pp) + mset (map (Pair k) b')"
  using sum_list_update_Some[of pp k b "\<lambda>e. mset (map (Pair (fst e)) (snd e))" b']
  by (simp add: mset_pool_entries)

lemma mset_entries_update_None:
  "map_of pp k = None \<Longrightarrow>
     mset (pool_entries (AList.update k b' pp)) = mset (pool_entries pp) + mset (map (Pair k) b')"
  using sum_list_update_None[of pp k "\<lambda>e. mset (map (Pair (fst e)) (snd e))" b']
  by (simp add: mset_pool_entries)

lemma in_pool_entries:
  "(k, n, v) \<in> set (pool_entries pp) \<longleftrightarrow> (\<exists>b. (k, b) \<in> set pp \<and> (n, v) \<in> set b)"
  by (force simp: pool_entries_def)

lemma in_pool_entries_map_of:
  "distinct (map fst pp) \<Longrightarrow>
     (k, n, v) \<in> set (pool_entries pp) \<longleftrightarrow> (\<exists>b. map_of pp k = Some b \<and> (n, v) \<in> set b)"
  by (simp add: in_pool_entries)

lemma wf_pool_name_unique:
  assumes "wf_pool pp" "(k, n, v) \<in> set (pool_entries pp)" "(k', n, v') \<in> set (pool_entries pp)"
  shows "k = k' \<and> v = v'"
proof -
  have "inj_on (\<lambda>e. fst (snd e)) (set (pool_entries pp))"
    using assms(1) by (simp add: wf_pool_def distinct_map)
  from inj_onD[OF this _ assms(2,3)] show ?thesis by simp
qed

lemma wf_pool_distinct_entries: "wf_pool pp \<Longrightarrow> distinct (pool_entries pp)"
  by (simp add: wf_pool_def distinct_map)

lemma wf_pool_bucket_distinct:
  assumes "wf_pool pp" "map_of pp k = Some b"
  shows "distinct (map fst b)"
proof -
  have "mset (pool_entries (AList.update k [] pp)) + mset (map (Pair k) b) = mset (pool_entries pp)"
    using mset_entries_update_Some[OF assms(2), of "[]"] by simp
  then have "mset (map (Pair k) b) \<subseteq># mset (pool_entries pp)"
    by (metis mset_subset_eq_add_right)
  then have "mset (map (\<lambda>e. fst (snd e)) (map (Pair k) b)) \<subseteq># mset (map (\<lambda>e. fst (snd e)) (pool_entries pp))"
    by (simp only: mset_map image_mset_subseteq_mono)
  then have "distinct (map (\<lambda>e. fst (snd e)) (map (Pair k) b))"
    using assms(1) distinct_mset_subseteq unfolding wf_pool_def by blast
  then show ?thesis by (simp add: comp_def)
qed

lemma pool_entries_remove_best:
  "pool_entries (remove_best best pp) =
     filter (\<lambda>e. fst (snd e) \<notin> fst ` set best) (pool_entries pp)"
  by (induction pp) (simp_all add: remove_best_eq pool_entries_def filter_map comp_def)

lemma keys_remove_best [simp]: "map fst (remove_best best pp) = map fst pp"
  by (simp add: remove_best_eq comp_def)

lemma wf_pool_remove_best: "wf_pool pp \<Longrightarrow> wf_pool (remove_best best pp)"
proof -
  assume w: "wf_pool pp"
  have "distinct (map (\<lambda>e. fst (snd e)) (filter (\<lambda>e. fst (snd e) \<notin> fst ` set best) (pool_entries pp)))"
    using w by (simp add: wf_pool_def distinct_map_filter)
  then show ?thesis
    using w by (simp add: wf_pool_def pool_entries_remove_best)
qed

subsection \<open>Union of dictionaries\<close>

lemma dict_union_Cons: "dict_union a (kv # b) = dict_union (AList.update (fst kv) (snd kv) a) b"
  by (simp add: dict_union_def)

lemma dict_union_Nil [simp]: "dict_union a [] = a"
  by (simp add: dict_union_def)

lemma distinct_dict_union:
  "distinct (map fst a) \<Longrightarrow> distinct (map fst (dict_union a b))"
  by (induction b arbitrary: a) (simp_all add: dict_union_Cons AList.distinct_update)

lemma map_of_dict_union:
  "distinct (map fst b) \<Longrightarrow>
     map_of (dict_union a b) x = (case map_of b x of Some v \<Rightarrow> Some v | None \<Rightarrow> map_of a x)"
proof (induction b arbitrary: a)
  case Nil
  then show ?case by simp
next
  case (Cons kv b)
  obtain k v where kv: "kv = (k, v)" by (cases kv)
  have nk: "map_of b k = None"
    using Cons.prems by (simp add: kv map_of_eq_None_iff)
  have "map_of (dict_union a (kv # b)) x =
      (case map_of b x of Some v \<Rightarrow> Some v | None \<Rightarrow> map_of (AList.update k v a) x)"
    using Cons.IH[of "AList.update k v a"] Cons.prems
    by (simp add: dict_union_Cons kv)
  then show ?case
    using nk by (cases "x = k") (simp_all add: kv AList.update_conv split: option.splits)
qed

lemma set_dict_union:
  assumes "distinct (map fst a)" "distinct (map fst b)"
    and "\<And>k v v'. (k, v) \<in> set a \<Longrightarrow> (k, v') \<in> set b \<Longrightarrow> v = v'"
  shows "set (dict_union a b) = set a \<union> set b"
proof -
  have d: "distinct (map fst (dict_union a b))"
    using assms(1) by (rule distinct_dict_union)
  have "(k, v) \<in> set (dict_union a b) \<longleftrightarrow> (k, v) \<in> set a \<union> set b" for k v
  proof -
    have "(k, v) \<in> set (dict_union a b) \<longleftrightarrow> map_of (dict_union a b) k = Some v"
      using d by simp
    also have "\<dots> \<longleftrightarrow>
        (case map_of b k of Some v' \<Rightarrow> Some v' | None \<Rightarrow> map_of a k) = Some v"
      by (simp add: map_of_dict_union[OF assms(2)])
    also have "\<dots> \<longleftrightarrow> (k, v) \<in> set a \<union> set b"
    proof (cases "map_of b k")
      case None
      then have "(k, v) \<notin> set b" using assms(2) by (metis map_of_is_SomeI option.distinct(1))
      then show ?thesis using None assms(1) by simp
    next
      case (Some v')
      then have kb: "(k, v') \<in> set b" by (rule map_of_SomeD)
      have "(k, v) \<in> set a \<Longrightarrow> v = v'" using assms(3) kb by blast
      moreover have "(k, v) \<in> set b \<longleftrightarrow> v = v'"
        using assms(2) kb by (metis eq_key_imp_eq_value)
      ultimately show ?thesis using Some by auto
    qed
    finally show ?thesis .
  qed
  then show ?thesis by auto
qed

subsection \<open>The pool of a flex slot\<close>

lemma flex_pool_fold:
  assumes "wf_pool pp" "distinct (map fst acc)"
    and "\<And>n v. (n, v) \<in> set acc \<Longrightarrow> \<exists>k. (k, n, v) \<in> set (pool_entries pp)"
  shows "distinct (map fst (fold (\<lambda>flex_position pool.
             case map_of pp flex_position of
               Some bucket \<Rightarrow> dict_union pool bucket
             | None \<Rightarrow> pool) F acc)) \<and>
         set (fold (\<lambda>flex_position pool.
             case map_of pp flex_position of
               Some bucket \<Rightarrow> dict_union pool bucket
             | None \<Rightarrow> pool) F acc) =
           set acc \<union> {nv. \<exists>k\<in>set F. (k, nv) \<in> set (pool_entries pp)}"
  using assms(2,3)
proof (induction F arbitrary: acc)
  case Nil
  then show ?case by simp
next
  case (Cons f F)
  have dk: "distinct (map fst pp)" using assms(1) by (simp add: wf_pool_def)
  show ?case
  proof (cases "map_of pp f")
    case None
    then have "\<not> (f, n, v) \<in> set (pool_entries pp)" for n v
      using dk by (simp add: in_pool_entries_map_of)
    then have "{nv. \<exists>k\<in>set (f # F). (k, nv) \<in> set (pool_entries pp)} =
               {nv. \<exists>k\<in>set F. (k, nv) \<in> set (pool_entries pp)}"
      by auto
    then show ?thesis
      using Cons.IH[OF Cons.prems] None by simp
  next
    case (Some b)
    have db: "distinct (map fst b)" using wf_pool_bucket_distinct[OF assms(1) Some] .
    have bin: "(n, v) \<in> set b \<longleftrightarrow> (f, n, v) \<in> set (pool_entries pp)" for n v
      using dk Some by (simp add: in_pool_entries_map_of)
    have agree: "v = v'" if h1: "(n, v) \<in> set acc" and h2: "(n, v') \<in> set b" for n v v'
    proof -
      obtain k where "(k, n, v) \<in> set (pool_entries pp)" using Cons.prems(2)[OF h1] by blast
      moreover have "(f, n, v') \<in> set (pool_entries pp)" using h2 bin by simp
      ultimately show ?thesis using wf_pool_name_unique[OF assms(1)] by blast
    qed
    have su: "set (dict_union acc b) = set acc \<union> set b"
      using set_dict_union[OF Cons.prems(1) db] agree by blast
    have d': "distinct (map fst (dict_union acc b))"
      using Cons.prems(1) by (rule distinct_dict_union)
    have ex': "\<exists>k. (k, n, v) \<in> set (pool_entries pp)" if "(n, v) \<in> set (dict_union acc b)" for n v
      using that su Cons.prems(2) bin by auto
    have "set b = {nv. (f, nv) \<in> set (pool_entries pp)}"
      using bin by auto
    then have "set acc \<union> set b \<union> {nv. \<exists>k\<in>set F. (k, nv) \<in> set (pool_entries pp)} =
        set acc \<union> {nv. \<exists>k\<in>set (f # F). (k, nv) \<in> set (pool_entries pp)}"
      by auto
    then show ?thesis
      using Cons.IH[OF d' ex'] Some su by simp
  qed
qed

lemma distinct_flex_pool: "wf_pool pp \<Longrightarrow> distinct (map fst (flex_pool F pp))"
  using flex_pool_fold[of pp "[]" F] by (simp add: flex_pool_def)

lemma set_flex_pool:
  "wf_pool pp \<Longrightarrow>
     set (flex_pool F pp) = {nv. \<exists>k\<in>set F. (k, nv) \<in> set (pool_entries pp)}"
  using flex_pool_fold[of pp "[]" F] by (simp add: flex_pool_def)

lemma set_flex_pool_image:
  "wf_pool pp \<Longrightarrow> set (flex_pool F pp) = snd ` (set (pool_entries pp) \<inter> {e. fst e \<in> set F})"
  by (auto simp: set_flex_pool image_iff) force

subsection \<open>The best of a sorted list\<close>

lemma is_top_image:
  assumes inj: "inj_on f C" and img: "f ` C = set xs" and d: "distinct (map fst xs)"
    and val: "\<And>c. c \<in> C \<Longrightarrow> v c = snd (f c)"
  shows "is_top v C n {c \<in> C. f c \<in> set (take n (sorted_desc xs))}"
proof -
  let ?s = "sorted_desc xs"
  let ?G = "{c \<in> C. f c \<in> set (take n ?s)}"
  have ds: "distinct ?s" using d by (metis distinct_keys_sorted_desc distinct_map)
  have fin: "finite C" using img inj by (metis finite_imageD List.finite_set)
  have "f ` ?G = set (take n ?s)"
  proof -
    have "set (take n ?s) \<subseteq> f ` C" using img set_take_subset[of n ?s] by simp
    then show ?thesis by auto
  qed
  moreover have "inj_on f ?G" using inj by (rule inj_on_subset) auto
  ultimately have "card ?G = card (set (take n ?s))" by (metis card_image)
  also have "\<dots> = length (take n ?s)" using ds by (simp add: distinct_card)
  also have "\<dots> = min n (length xs)" by simp
  also have "length xs = card (set ?s)" using ds by (metis distinct_card length_sorted_desc)
  also have "\<dots> = card C" using img inj by (simp add: card_image[symmetric])
  finally have c: "card ?G = min n (card C)" .
  have t: "v y \<le> v x" if "x \<in> ?G" "y \<in> C - ?G" for x y
  proof -
    have "f y \<in> set ?s" using that(2) img by auto
    moreover have "f y \<notin> set (take n ?s)" using that(2) by auto
    ultimately have "f y \<in> set (drop n ?s)"
      by (metis Un_iff append_take_drop_id set_append)
    moreover have "f x \<in> set (take n ?s)" using that(1) by simp
    ultimately have "snd (f y) \<le> snd (f x)" using sorted_desc_top by blast
    then show ?thesis using val that by auto
  qed
  show ?thesis
    unfolding is_top_def using c t by blast
qed

section \<open>One step of the allocation\<close>

lemma wf_pool_inj_snd: "wf_pool pp \<Longrightarrow> inj_on snd (set (pool_entries pp))"
proof (rule inj_onI)
  fix x y assume w: "wf_pool pp" and x: "x \<in> set (pool_entries pp)" and y: "y \<in> set (pool_entries pp)"
    and e: "snd x = snd y"
  obtain k n v where xx: "x = (k, n, v)" by (cases x)
  obtain k' n' v' where yy: "y = (k', n', v')" by (cases y)
  from e xx yy have "n = n'" "v = v'" by simp_all
  with wf_pool_name_unique[OF w, of k n v k' v'] x y xx yy show "x = y" by simp
qed

lemma take_core:
  assumes wf: "wf_pool pp" and C: "C \<subseteq> set (pool_entries pp)"
    and img: "snd ` C = set xs" and d: "distinct (map fst xs)"
  shows "is_top val C n {c \<in> C. snd c \<in> set (take n (sorted_desc xs))}"
    and "sum val {c \<in> C. snd c \<in> set (take n (sorted_desc xs))} =
         sum_list (map snd (take n (sorted_desc xs)))"
proof -
  let ?G = "{c \<in> C. snd c \<in> set (take n (sorted_desc xs))}"
  have inj: "inj_on snd C" using wf_pool_inj_snd[OF wf] C by (rule inj_on_subset)
  show "is_top val C n ?G"
    using inj img d by (rule is_top_image) (simp add: val_def)
  have "set (take n (sorted_desc xs)) \<subseteq> snd ` C"
    using img set_take_subset[of n "sorted_desc xs"] by simp
  then have im: "snd ` ?G = set (take n (sorted_desc xs))"
  proof -
    assume sub: "set (take n (sorted_desc xs)) \<subseteq> snd ` C"
    show ?thesis
    proof
      show "snd ` ?G \<subseteq> set (take n (sorted_desc xs))" by auto
      show "set (take n (sorted_desc xs)) \<subseteq> snd ` ?G"
      proof
        fix nv assume nv: "nv \<in> set (take n (sorted_desc xs))"
        with sub obtain c where "c \<in> C" "snd c = nv" by auto
        with nv have "c \<in> ?G" by simp
        then have "snd c \<in> snd ` ?G" by (rule imageI)
        then show "nv \<in> snd ` ?G" using \<open>snd c = nv\<close> by (simp only:)
      qed
    qed
  qed
  have "distinct (map fst (sorted_desc xs))" using d by simp
  then have "distinct (sorted_desc xs)" by (simp add: distinct_map)
  then have dt: "distinct (take n (sorted_desc xs))" by simp
  have "sum val ?G = sum (snd \<circ> snd) ?G" by (simp add: val_def comp_def)
  also have "\<dots> = sum snd (snd ` ?G)"
  proof -
    have "?G \<subseteq> C" by blast
    with inj have "inj_on snd ?G" by (rule inj_on_subset)
    then show ?thesis by (rule sum.reindex[symmetric])
  qed
  also have "\<dots> = sum_list (map snd (take n (sorted_desc xs)))"
    unfolding im using dt by (simp add: sum_list_distinct_conv_sum_set)
  finally show "sum val ?G = sum_list (map snd (take n (sorted_desc xs)))" .
qed

lemma removal_core:
  assumes wf: "wf_pool pp" and dk: "distinct (map fst pp')"
    and ms: "mset (pool_entries pp) = mset (pool_entries pp') + mset Gl"
  shows "wf_pool pp'" and "set (pool_entries pp') = set (pool_entries pp) - set Gl"
proof -
  have "mset (pool_entries pp') \<subseteq># mset (pool_entries pp)" using ms by simp
  then have "mset (map (\<lambda>e. fst (snd e)) (pool_entries pp')) \<subseteq>#
      mset (map (\<lambda>e. fst (snd e)) (pool_entries pp))"
    by (simp only: mset_map image_mset_subseteq_mono)
  then have "distinct (map (\<lambda>e. fst (snd e)) (pool_entries pp'))"
    using wf distinct_mset_subseteq unfolding wf_pool_def by blast
  then show "wf_pool pp'" using dk by (simp add: wf_pool_def)
  have de: "distinct (pool_entries pp)" using wf by (rule wf_pool_distinct_entries)
  have "set_mset (mset (pool_entries pp)) = set_mset (mset (pool_entries pp') + mset Gl)"
    by (simp only: ms)
  then have un: "set (pool_entries pp) = set (pool_entries pp') \<union> set Gl"
    by simp
  have dis: "e \<notin> set Gl" if "e \<in> set (pool_entries pp')" for e
  proof
    assume "e \<in> set Gl"
    then have c1: "count (mset Gl) e \<ge> 1"
      by (simp add: Suc_le_eq count_greater_zero_iff)
    have c2: "count (mset (pool_entries pp')) e \<ge> 1"
      using that by (simp add: Suc_le_eq count_greater_zero_iff)
    have c3: "count (mset (pool_entries pp)) e \<le> 1"
      using de unfolding distinct_count_atmost_1 by (metis le_refl zero_le_one)
    have "count (mset (pool_entries pp)) e =
        count (mset (pool_entries pp')) e + count (mset Gl) e"
      unfolding ms by simp
    with c1 c2 c3 show False by linarith
  qed
  show "set (pool_entries pp') = set (pool_entries pp) - set Gl"
    using un dis by auto
qed

lemma fill_position_snd:
  "snd (fill_position (k, n) (pp, bl)) = AList.update k (take n (sorted_desc (bucket_of pp k))) bl"
  by (simp add: fill_position_def bucket_of_def sorted_desc_def split: option.splits)

lemma fill_position_fst:
  "fst (fill_position (k, n) (pp, bl)) =
     (case map_of pp k of Some b \<Rightarrow> AList.update k (drop n (sorted_desc b)) pp | None \<Rightarrow> pp)"
  by (simp add: fill_position_def split: option.splits)

lemma keys_update_present: "map_of al k = Some v \<Longrightarrow> map fst (AList.update k v' al) = map fst al"
  by (induction al) (auto split: if_splits)

lemma fill_position_keys [simp]:
  "map fst (fst (fill_position (k, n) (pp, bl))) = map fst pp"
  by (simp add: fill_position_fst keys_update_present split: option.splits)

lemma bucket_image:
  assumes "distinct (map fst pp)"
  shows "snd ` (set (pool_entries pp) \<inter> pos_in [k]) = set (bucket_of pp k)"
proof -
  have "nv \<in> snd ` (set (pool_entries pp) \<inter> pos_in [k]) \<longleftrightarrow> nv \<in> set (bucket_of pp k)" for nv
  proof -
    have "nv \<in> snd ` (set (pool_entries pp) \<inter> pos_in [k]) \<longleftrightarrow> (k, nv) \<in> set (pool_entries pp)"
      by (auto simp: pos_in_def image_iff) force
    also have "\<dots> \<longleftrightarrow> (\<exists>b. map_of pp k = Some b \<and> nv \<in> set b)"
      using in_pool_entries_map_of[OF assms, of k "fst nv" "snd nv"] by simp
    also have "\<dots> \<longleftrightarrow> nv \<in> set (bucket_of pp k)"
      by (cases "map_of pp k") (simp_all add: bucket_of_def)
    finally show ?thesis .
  qed
  then show ?thesis by blast
qed

lemma bucket_of_distinct: "wf_pool pp \<Longrightarrow> distinct (map fst (bucket_of pp k))"
  by (auto simp: bucket_of_def wf_pool_bucket_distinct split: option.splits)

lemma fill_position_step:
  fixes k :: string and n :: nat and pp :: pool
  assumes wf: "wf_pool pp"
  defines "G \<equiv> {c \<in> set (pool_entries pp) \<inter> pos_in [k].
                   snd c \<in> set (take n (sorted_desc (bucket_of pp k)))}"
  shows "wf_pool (fst (fill_position (k, n) (pp, bl)))"
    and "set (pool_entries (fst (fill_position (k, n) (pp, bl)))) = set (pool_entries pp) - G"
    and "is_top val (set (pool_entries pp) \<inter> pos_in [k]) n G"
    and "sum val G = sum_list (map snd (take n (sorted_desc (bucket_of pp k))))"
proof -
  have dk: "distinct (map fst pp)" using wf by (simp add: wf_pool_def)
  have img: "snd ` (set (pool_entries pp) \<inter> pos_in [k]) = set (bucket_of pp k)"
    using dk by (rule bucket_image)
  have db: "distinct (map fst (bucket_of pp k))" using wf by (rule bucket_of_distinct)
  show "is_top val (set (pool_entries pp) \<inter> pos_in [k]) n G"
    unfolding G_def by (rule take_core(1)[OF wf _ img db]) simp
  show "sum val G = sum_list (map snd (take n (sorted_desc (bucket_of pp k))))"
    unfolding G_def by (rule take_core(2)[OF wf _ img db]) simp
  show "wf_pool (fst (fill_position (k, n) (pp, bl)))"
    and "set (pool_entries (fst (fill_position (k, n) (pp, bl)))) = set (pool_entries pp) - G"
  proof -
    have "wf_pool (fst (fill_position (k, n) (pp, bl))) \<and>
          set (pool_entries (fst (fill_position (k, n) (pp, bl)))) = set (pool_entries pp) - G"
    proof (cases "map_of pp k")
      case None
      then have "G = {}" by (simp add: G_def bucket_of_def sorted_desc_def)
      then show ?thesis using None wf by (simp add: fill_position_fst)
    next
      case (Some b)
      let ?s = "sorted_desc b"
      let ?pp' = "AList.update k (drop n ?s) pp"
      let ?Gl = "map (Pair k) (take n ?s)"
      have bo: "bucket_of pp k = b" using Some by (simp add: bucket_of_def)
      have "mset (map (Pair k) b) = mset ?Gl + mset (map (Pair k) (drop n ?s))"
      proof -
        have "mset b = mset (take n ?s) + mset (drop n ?s)"
          by (simp add: mset_take_drop)
        then have "image_mset (Pair k) (mset b) =
            image_mset (Pair k) (mset (take n ?s)) + image_mset (Pair k) (mset (drop n ?s))"
          by (simp only: image_mset_union)
        then show ?thesis by (simp only: mset_map)
      qed
      with mset_entries_update_Some[OF Some, of "drop n ?s"]
      have "mset (pool_entries ?pp') + mset ?Gl + mset (map (Pair k) (drop n ?s)) =
          mset (pool_entries pp) + mset (map (Pair k) (drop n ?s))"
        by (simp only: ac_simps)
      then have ms: "mset (pool_entries pp) = mset (pool_entries ?pp') + mset ?Gl"
        by (simp only: add_right_cancel)
      have dk': "distinct (map fst ?pp')" using dk by (rule AList.distinct_update)
      have gl: "set ?Gl = G"
      proof -
        have "(k, nv) \<in> set (pool_entries pp)" if "nv \<in> set (take n ?s)" for nv
        proof -
          have "nv \<in> set b" using that set_take_subset[of n ?s] by auto
          then show ?thesis
            using in_pool_entries_map_of[OF dk, of k "fst nv" "snd nv"] Some by simp
        qed
        then show ?thesis
          unfolding G_def bo by (auto simp: pos_in_def image_iff) 
      qed
      from removal_core[OF wf dk' ms] gl show ?thesis
        using Some by (simp add: fill_position_fst)
    qed
    then show "wf_pool (fst (fill_position (k, n) (pp, bl)))"
      and "set (pool_entries (fst (fill_position (k, n) (pp, bl)))) = set (pool_entries pp) - G"
      by simp_all
  qed
qed

lemma best_flex_fst: "fst (best_flex F pp n) = take n (sorted_desc (flex_pool F pp))"
  by (simp add: best_flex_def Let_def)

lemma best_flex_snd:
  "snd (best_flex F pp n) = remove_best (take n (sorted_desc (flex_pool F pp))) pp"
  by (simp add: best_flex_def Let_def)

lemma best_flex_keys [simp]: "map fst (snd (best_flex F pp n)) = map fst pp"
  by (simp add: best_flex_snd)

lemma best_flex_step:
  fixes F :: "string list" and n :: nat and pp :: pool
  assumes wf: "wf_pool pp"
  defines "G \<equiv> {c \<in> set (pool_entries pp) \<inter> pos_in F.
                   snd c \<in> set (take n (sorted_desc (flex_pool F pp)))}"
  shows "wf_pool (snd (best_flex F pp n))"
    and "set (pool_entries (snd (best_flex F pp n))) = set (pool_entries pp) - G"
    and "is_top val (set (pool_entries pp) \<inter> pos_in F) n G"
    and "sum val G = sum_list (map snd (take n (sorted_desc (flex_pool F pp))))"
proof -
  let ?best = "take n (sorted_desc (flex_pool F pp))"
  have img: "snd ` (set (pool_entries pp) \<inter> pos_in F) = set (flex_pool F pp)"
    using set_flex_pool_image[OF wf, of F] by (simp add: pos_in_def)
  have d: "distinct (map fst (flex_pool F pp))" using wf by (rule distinct_flex_pool)
  show "is_top val (set (pool_entries pp) \<inter> pos_in F) n G"
    unfolding G_def by (rule take_core(1)[OF wf _ img d]) simp
  show "sum val G = sum_list (map snd (take n (sorted_desc (flex_pool F pp))))"
    unfolding G_def by (rule take_core(2)[OF wf _ img d]) simp
  show "wf_pool (snd (best_flex F pp n))"
    unfolding best_flex_snd using wf by (rule wf_pool_remove_best)
  have G: "{e \<in> set (pool_entries pp). fst (snd e) \<in> fst ` set ?best} = G"
  proof
    show "{e \<in> set (pool_entries pp). fst (snd e) \<in> fst ` set ?best} \<subseteq> G"
    proof
      fix e assume "e \<in> {e \<in> set (pool_entries pp). fst (snd e) \<in> fst ` set ?best}"
      then have e: "e \<in> set (pool_entries pp)" and "fst (snd e) \<in> fst ` set ?best" by auto
      then obtain nv where nv: "nv \<in> set ?best" "fst nv = fst (snd e)" by auto
      then have "nv \<in> set (flex_pool F pp)" using set_take_subset[of n "sorted_desc (flex_pool F pp)"] by auto
      then have "nv \<in> snd ` (set (pool_entries pp) \<inter> pos_in F)" by (simp only: img)
      then obtain c where c: "c \<in> set (pool_entries pp)" "c \<in> pos_in F" "snd c = nv" by blast
      obtain k m x where ee: "e = (k, m, x)" by (cases e)
      obtain k' m' x' where cc: "c = (k', m', x')" by (cases c)
      from nv(2) c(3) ee cc have "m' = m" by auto
      with wf_pool_name_unique[OF wf, of k m x k' x'] e c(1) ee cc have "e = c" by simp
      with c nv(1) show "e \<in> G" by (simp add: G_def)
    qed
    show "G \<subseteq> {e \<in> set (pool_entries pp). fst (snd e) \<in> fst ` set ?best}"
      by (auto simp: G_def)
  qed
  show "set (pool_entries (snd (best_flex F pp n))) = set (pool_entries pp) - G"
    unfolding best_flex_snd pool_entries_remove_best G[symmetric] by auto
qed

section \<open>The pool of a roster\<close>

lemma position_players_of_snoc:
  "position_players_of (l @ [p]) = place_player p (position_players_of l)"
  by (simp add: position_players_of_def)

lemma roster_bucket_snoc:
  "roster_bucket (l @ [p]) pos =
     roster_bucket l pos @ (if position p = pos then [(name p, points p)] else [])"
  by (simp add: roster_bucket_def roster_nv_def)

lemma roster_bucket_names: "fst ` set (roster_bucket l pos) \<subseteq> name ` set l"
  by (auto simp: roster_bucket_def roster_nv_def)

lemma distinct_keys_position_players: "distinct (map fst (position_players_of l))"
proof (induction l rule: rev_induct)
  case Nil
  then show ?case by (simp add: position_players_of_def)
next
  case (snoc p l)
  then show ?case
    by (simp add: position_players_of_snoc place_player_def AList.distinct_update split: option.splits)
qed

lemma position_players_of_bucket:
  assumes "distinct (map name l)"
  shows "map_of (position_players_of l) pos =
           (if roster_bucket l pos = [] then None else Some (roster_bucket l pos)) \<and>
         mset (pool_entries (position_players_of l)) = mset (map entry_of l)"
  using assms
proof (induction l arbitrary: pos rule: rev_induct)
  case Nil
  then show ?case by (simp add: position_players_of_def roster_bucket_def roster_nv_def pool_entries_def)
next
  case (snoc p l)
  let ?pp = "position_players_of l"
  let ?k = "position p"
  let ?b = "roster_bucket l ?k"
  have dl: "distinct (map name l)" and np: "name p \<notin> name ` set l"
    using snoc.prems by auto
  have IH1: "map_of ?pp q = (if roster_bucket l q = [] then None else Some (roster_bucket l q))" for q
    using snoc.IH[OF dl] by simp
  have IH2: "mset (pool_entries ?pp) = mset (map entry_of l)"
    using snoc.IH[OF dl] by simp
  have nb: "name p \<notin> fst ` set ?b" using np roster_bucket_names[of l ?k] by auto
  have pl: "place_player p ?pp = AList.update ?k (?b @ [(name p, points p)]) ?pp"
    by (simp add: place_player_def IH1 update_append_new[OF nb])
  have m: "map_of (position_players_of (l @ [p])) pos =
      (if roster_bucket (l @ [p]) pos = [] then None else Some (roster_bucket (l @ [p]) pos))"
    by (simp add: position_players_of_snoc pl AList.update_conv' roster_bucket_snoc IH1)
  have e: "mset (pool_entries (place_player p ?pp)) = mset (pool_entries ?pp) + {#entry_of p#}"
  proof (cases "?b = []")
    case True
    then have "map_of ?pp ?k = None" by (simp add: IH1)
    from mset_entries_update_None[OF this, of "?b @ [(name p, points p)]"] True
    show ?thesis by (simp add: pl entry_of_def)
  next
    case False
    then have "map_of ?pp ?k = Some ?b" by (simp add: IH1)
    from mset_entries_update_Some[OF this, of "?b @ [(name p, points p)]"]
    show ?thesis by (simp add: pl entry_of_def)
  qed
  show ?case
    using m e IH2 by (simp add: position_players_of_snoc)
qed

lemma wf_position_players:
  assumes "distinct (map name l)"
  shows "wf_pool (position_players_of l)"
proof -
  have "mset (map (\<lambda>e. fst (snd e)) (pool_entries (position_players_of l))) =
      mset (map (\<lambda>e. fst (snd e)) (map entry_of l))"
    using position_players_of_bucket[OF assms] by (simp only: mset_map)
  also have "map (\<lambda>e. fst (snd e)) (map entry_of l) = map name l"
    by (simp add: entry_of_def comp_def)
  finally have "distinct (map (\<lambda>e. fst (snd e)) (pool_entries (position_players_of l)))"
    using assms by (metis mset_eq_imp_distinct_iff)
  then show ?thesis
    by (simp add: wf_pool_def distinct_keys_position_players)
qed


section \<open>The allocation as a greedy run\<close>


lemma lineup_total_Nil [simp]: "lineup_total [] = 0"
  by (simp add: lineup_total_def)


lemma fill_position_pair:
  "fill_position (k, n) (pp, bl) =
     (fst (fill_position (k, n) (pp, bl)), AList.update k (take n (sorted_desc (bucket_of pp k))) bl)"
  using fill_position_snd[of k n pp bl] by (metis prod.collapse)

lemma fill_positions_missing:
  assumes "map_of pp k = None"
  shows "map_of (fst (fold fill_position sc (pp, bl))) k = None \<and>
         map_of (snd (fold fill_position sc (pp, bl))) k =
           (if k \<in> fst ` set sc then Some [] else map_of bl k)"
  using assms
proof (induction sc arbitrary: pp bl)
  case Nil
  then show ?case by simp
next
  case (Cons s sc)
  obtain k0 n0 where s: "s = (k0, n0)" by (cases s)
  let ?pp1 = "fst (fill_position (k0, n0) (pp, bl))"
  let ?bl1 = "AList.update k0 (take n0 (sorted_desc (bucket_of pp k0))) bl"
  have "set (map fst ?pp1) = set (map fst pp)" by (simp only: fill_position_keys)
  then have "fst ` set ?pp1 = fst ` set pp" by (simp only: set_map)
  then have n1: "map_of ?pp1 k = None" using Cons.prems by (simp add: map_of_eq_None_iff)
  have f: "fold fill_position (s # sc) (pp, bl) = fold fill_position sc (?pp1, ?bl1)"
    using fill_position_pair[of k0 n0 pp bl] by (simp add: s)
  have b1: "map_of ?bl1 k = (if k0 = k then Some [] else map_of bl k)"
    using Cons.prems by (auto simp: AList.update_conv' bucket_of_def sorted_desc_def)
  show ?case
    unfolding f using Cons.IH[OF n1, of ?bl1] b1 by (auto simp: s)
qed


lemma fill_flex_eq:
  "fill_flex (k, n) (pp, bl) =
     (if is_flex k
      then (snd (best_flex (str_split CHR ''/'' k) pp n),
            AList.update k (fst (best_flex (str_split CHR ''/'' k) pp n)) bl)
      else (pp, bl))"
  by (simp add: fill_flex_def split: prod.splits)

lemma fill_named_eq:
  "fill_named key F sc (pp, bl) =
     (case map_of sc key of
        Some n \<Rightarrow> (snd (best_flex F pp n), AList.update key (fst (best_flex F pp n)) bl)
      | None \<Rightarrow> (pp, bl))"
  by (simp add: fill_named_def split: prod.splits option.splits)





section \<open>Optimality of the allocation\<close>

lemma nested_append:
  "nested (a @ b) \<longleftrightarrow>
     nested a \<and> nested b \<and>
     (\<forall>x\<in>set a. \<forall>y\<in>set b. fst (snd x) \<inter> fst (snd y) = {} \<or> fst (snd x) \<subseteq> fst (snd y))"
  by (induction a) auto















section \<open>The optimal score against the actual score\<close>




text \<open>It fails as well for a negative score: the allocation fills a slot that the
  actual lineup left empty.\<close>

lemma optimal_below_actual_negative_points:
  "legal_lineup [mk_player ''q'' ''QB'' ''BE'' (- 2)] [(''QB'', 1)] \<and>
   nested_config [(''QB'', 1)] \<and>
   optimal_lineup_score [mk_player ''q'' ''QB'' ''BE'' (- 2)] [(''QB'', 1)] =
     Inr (- 2, 0, - 2, 0)"
  by (simp add: spec_defs eval_defs)

section \<open>More points for one player\<close>






section \<open>Every player in at most one slot\<close>

lemma distinct_mset_subseteq_set:
  assumes "distinct xs" "set xs \<subseteq> set_mset M"
  shows "mset xs \<subseteq># M"
proof (rule mset_subset_eqI)
  fix a
  show "count (mset xs) a \<le> count M a"
  proof (cases "a \<in> set xs")
    case True
    then have "a \<in># M" using assms(2) by auto
    then have "1 \<le> count M a" by (simp add: Suc_le_eq)
    moreover have "count (mset xs) a = 1" using assms(1) True by (simp add: distinct_count_atmost_1)
    ultimately show ?thesis by simp
  next
    case False
    then have "count (mset xs) a = 0" by (metis count_mset_0_iff)
    then show ?thesis by (metis le0)
  qed
qed

lemma image_snd_Pair [simp]: "image_mset snd (image_mset (Pair k) M) = M"
  by (simp add: image_mset.compositionality comp_def)

lemma names_of_entries: "map (\<lambda>e. fst (snd e)) (pool_entries bl) = assigned_names bl"
  by (induction bl) (simp_all add: pool_entries_def assigned_names_def comp_def)

lemma lineup_total_entries: "lineup_total bl = sum_list (map val (pool_entries bl))"
  by (induction bl) (simp_all add: pool_entries_def lineup_total_def val_def comp_def)

lemma mset_entries_update_le:
  "mset (pool_entries (AList.update k G bl)) \<subseteq># mset (pool_entries bl) + mset (map (Pair k) G)"
proof (cases "map_of bl k")
  case None
  then show ?thesis by (simp add: mset_entries_update_None)
next
  case (Some b)
  from mset_entries_update_Some[OF Some, of G]
  have "mset (pool_entries (AList.update k G bl)) + mset (map (Pair k) b) =
      mset (pool_entries bl) + mset (map (Pair k) G)" .
  then show ?thesis by (metis mset_subset_eq_add_left)
qed

lemma snd_entries_update_le:
  "mset (map snd (pool_entries (AList.update k G bl))) \<subseteq>#
     mset (map snd (pool_entries bl)) + mset G"
proof -
  have "image_mset snd (mset (pool_entries (AList.update k G bl))) \<subseteq>#
      image_mset snd (mset (pool_entries bl) + mset (map (Pair k) G))"
    using mset_entries_update_le by (rule image_mset_subseteq_mono)
  then show ?thesis by (simp add: comp_def)
qed

lemma fill_position_mset:
  "mset (pool_entries pp) =
     mset (pool_entries (fst (fill_position (k, n) (pp, bl)))) +
     mset (map (Pair k) (take n (sorted_desc (bucket_of pp k))))"
proof (cases "map_of pp k")
  case None
  then show ?thesis by (simp add: fill_position_fst bucket_of_def sorted_desc_def)
next
  case (Some b)
  let ?s = "sorted_desc b"
  have "mset b = mset (take n ?s) + mset (drop n ?s)"
    by (simp add: mset_take_drop)
  then have "image_mset (Pair k) (mset b) =
      image_mset (Pair k) (mset (take n ?s)) + image_mset (Pair k) (mset (drop n ?s))"
    by (simp only: image_mset_union)
  then have "mset (map (Pair k) b) =
      mset (map (Pair k) (take n ?s)) + mset (map (Pair k) (drop n ?s))"
    by (simp only: mset_map)
  with mset_entries_update_Some[OF Some, of "drop n ?s"]
  have "mset (pool_entries (AList.update k (drop n ?s) pp)) + mset (map (Pair k) (take n ?s)) +
        mset (map (Pair k) (drop n ?s)) =
      mset (pool_entries pp) + mset (map (Pair k) (drop n ?s))"
    by (simp only: ac_simps)
  then have "mset (pool_entries pp) =
      mset (pool_entries (AList.update k (drop n ?s) pp)) + mset (map (Pair k) (take n ?s))"
    by (simp only: add_right_cancel)
  then show ?thesis using Some by (simp add: fill_position_fst bucket_of_def)
qed

lemma inv_step:
  fixes A A1 B B1 Gm R :: "'a multiset"
  assumes "A = A1 + Gm" "B1 \<subseteq># B + Gm" "A + B \<subseteq># R"
  shows "A1 + B1 \<subseteq># R"
proof -
  have "A1 + B1 \<subseteq># A1 + (B + Gm)" using assms(2) by simp
  also have "\<dots> = A + B" by (simp add: assms(1))
  finally show ?thesis using assms(3) by (rule subset_mset.order_trans)
qed

lemma alloc_inv_fill_position:
  assumes "alloc_inv lineup (pp, bl)"
  shows "alloc_inv lineup (fill_position (k, n) (pp, bl))"
proof -
  let ?G = "take n (sorted_desc (bucket_of pp k))"
  let ?pp1 = "fst (fill_position (k, n) (pp, bl))"
  have wf: "wf_pool pp" using assms by (simp add: alloc_inv_def)
  have wf1: "wf_pool ?pp1" using wf by (rule fill_position_step(1))
  have "image_mset snd (mset (pool_entries pp)) =
      image_mset snd (mset (pool_entries ?pp1) + mset (map (Pair k) ?G))"
    using fill_position_mset[of pp k n bl] by (simp only:)
  then have e: "mset (map snd (pool_entries pp)) = mset (map snd (pool_entries ?pp1)) + mset ?G"
    by simp
  have i: "mset (map snd (pool_entries pp)) + mset (map snd (pool_entries bl))
      \<subseteq># mset (roster_nv lineup)" using assms by (simp add: alloc_inv_def)
  have "mset (map snd (pool_entries ?pp1)) + mset (map snd (pool_entries (AList.update k ?G bl)))
      \<subseteq># mset (roster_nv lineup)"
    using e snd_entries_update_le[of k ?G bl] i by (rule inv_step)
  then have r: "alloc_inv lineup (?pp1, AList.update k ?G bl)"
    using wf1 by (simp add: alloc_inv_def)
  show ?thesis by (subst fill_position_pair) (rule r)
qed

lemma best_flex_taken:
  assumes wf: "wf_pool pp"
  shows "mset (map snd (pool_entries pp)) =
           mset (map snd (pool_entries (snd (best_flex F pp n)))) + mset (fst (best_flex F pp n))"
proof -
  let ?P = "set (pool_entries pp)"
  let ?best = "take n (sorted_desc (flex_pool F pp))"
  let ?G = "{c \<in> ?P \<inter> pos_in F. snd c \<in> set ?best}"
  let ?pp1 = "snd (best_flex F pp n)"
  note st = best_flex_step[OF wf, where F = F and n = n]
  have dP: "distinct (pool_entries pp)" using wf by (rule wf_pool_distinct_entries)
  have dP1: "distinct (pool_entries ?pp1)" using st(1) by (rule wf_pool_distinct_entries)
  have GP: "?G \<subseteq> ?P" by blast
  have "?P = (?P - ?G) \<union> ?G" by blast
  then have "mset_set ?P = mset_set ((?P - ?G) \<union> ?G)" by simp
  also have "\<dots> = mset_set (?P - ?G) + mset_set ?G"
    by (rule mset_set_Union) auto
  finally have "mset (pool_entries pp) = mset (pool_entries ?pp1) + mset_set ?G"
    using dP dP1 st(2) by (simp add: mset_set_set[symmetric])
  then have "image_mset snd (mset (pool_entries pp)) =
      image_mset snd (mset (pool_entries ?pp1)) + image_mset snd (mset_set ?G)"
    by simp
  moreover have "image_mset snd (mset_set ?G) = mset ?best"
  proof -
    have "inj_on snd ?G" using wf_pool_inj_snd[OF wf] by (rule inj_on_subset) blast
    then have "image_mset snd (mset_set ?G) = mset_set (snd ` ?G)" by (rule image_mset_mset_set)
    moreover have "snd ` ?G = set ?best"
    proof
      show "snd ` ?G \<subseteq> set ?best" by auto
      show "set ?best \<subseteq> snd ` ?G"
      proof
        fix nv assume nv: "nv \<in> set ?best"
        then have "nv \<in> set (flex_pool F pp)"
          using set_take_subset[of n "sorted_desc (flex_pool F pp)"] by auto
        then have "nv \<in> snd ` (?P \<inter> pos_in F)"
          using set_flex_pool_image[OF wf, of F] by (simp add: pos_in_def)
        then obtain c where c: "c \<in> ?P \<inter> pos_in F" "snd c = nv" by blast
        with nv have "c \<in> ?G" by simp
        then have "snd c \<in> snd ` ?G" by (rule imageI)
        then show "nv \<in> snd ` ?G" using c(2) by (simp only:)
      qed
    qed
    moreover have "distinct ?best"
    proof -
      have "distinct (map fst (sorted_desc (flex_pool F pp)))"
        using distinct_flex_pool[OF wf, of F] by simp
      then have "distinct (sorted_desc (flex_pool F pp))" by (simp add: distinct_map)
      then show ?thesis by simp
    qed
    ultimately show ?thesis by (simp add: mset_set_set)
  qed
  ultimately show ?thesis by (simp add: best_flex_fst)
qed

lemma alloc_inv_best_flex:
  assumes "alloc_inv lineup (pp, bl)"
  shows "alloc_inv lineup (snd (best_flex F pp n), AList.update k (fst (best_flex F pp n)) bl)"
proof -
  let ?G = "fst (best_flex F pp n)"
  let ?pp1 = "snd (best_flex F pp n)"
  have wf: "wf_pool pp" using assms by (simp add: alloc_inv_def)
  have wf1: "wf_pool ?pp1" using wf by (rule best_flex_step(1))
  have i: "mset (map snd (pool_entries pp)) + mset (map snd (pool_entries bl))
      \<subseteq># mset (roster_nv lineup)" using assms by (simp add: alloc_inv_def)
  have "mset (map snd (pool_entries ?pp1)) + mset (map snd (pool_entries (AList.update k ?G bl)))
      \<subseteq># mset (roster_nv lineup)"
    using best_flex_taken[OF wf] snd_entries_update_le[of k ?G bl] i by (rule inv_step)
  then show ?thesis using wf1 by (simp add: alloc_inv_def)
qed

lemma alloc_inv_fill_positions:
  "alloc_inv lineup st \<Longrightarrow> alloc_inv lineup (fold fill_position sc st)"
proof (induction sc arbitrary: st)
  case Nil
  then show ?case by simp
next
  case (Cons s sc)
  obtain k n where s: "s = (k, n)" by (cases s)
  obtain pp bl where st: "st = (pp, bl)" by (cases st)
  have "alloc_inv lineup (fill_position s st)"
    using Cons.prems unfolding s st by (rule alloc_inv_fill_position)
  then show ?case using Cons.IH by simp
qed

lemma alloc_inv_fill_flexes:
  "alloc_inv lineup st \<Longrightarrow> alloc_inv lineup (fold fill_flex sc st)"
proof (induction sc arbitrary: st)
  case Nil
  then show ?case by simp
next
  case (Cons s sc)
  obtain k n where s: "s = (k, n)" by (cases s)
  obtain pp bl where st: "st = (pp, bl)" by (cases st)
  have "alloc_inv lineup (fill_flex s st)"
    using Cons.prems alloc_inv_best_flex[of lineup pp bl "str_split CHR ''/'' k" n k]
    by (simp add: s st fill_flex_eq)
  then show ?case using Cons.IH by simp
qed

lemma alloc_inv_fill_named:
  "alloc_inv lineup st \<Longrightarrow> alloc_inv lineup (fill_named key F sc st)"
proof -
  assume a: "alloc_inv lineup st"
  obtain pp bl where st: "st = (pp, bl)" by (cases st)
  show ?thesis
    using a alloc_inv_best_flex[of lineup pp bl F _ key]
    by (simp add: st fill_named_eq split: option.splits)
qed

lemma alloc_inv_allocate:
  assumes "distinct (map name lineup)"
  shows "alloc_inv lineup (allocate lineup sc)"
proof -
  have "mset (map snd (pool_entries (position_players_of lineup))) = mset (roster_nv lineup)"
  proof -
    have "image_mset snd (mset (pool_entries (position_players_of lineup))) =
        image_mset snd (mset (map entry_of lineup))"
      using position_players_of_bucket[OF assms] by (simp only:)
    then show ?thesis
      by (simp add: roster_nv_def entry_of_def comp_def image_mset.compositionality)
  qed
  then have "alloc_inv lineup (position_players_of lineup, [])"
    using wf_position_players[OF assms] by (simp add: alloc_inv_def pool_entries_def)
  then show ?thesis
    unfolding allocate_def
    by (intro alloc_inv_fill_named alloc_inv_fill_flexes alloc_inv_fill_positions)
qed

text \<open>
  Claim C6. For a roster with distinct names and any configuration, no name occurs
  twice in the best lineup, within a slot or across slots, and the optimal score is the
  sum of the points of a set of players of the roster, the assigned ones, each counted
  once.
\<close>

theorem each_player_at_most_once:
  assumes "distinct (map name lineup)"
  shows "distinct (assigned_names (best_lineup_of lineup sc)) \<and>
         (\<exists>S. S \<subseteq> set lineup \<and>
              name ` S = set (assigned_names (best_lineup_of lineup sc)) \<and>
              best_score_of lineup sc = sum points S)"
proof -
  let ?bl = "best_lineup_of lineup sc"
  let ?nv = "map snd (pool_entries ?bl)"
  let ?g = "\<lambda>p. (name p, points p)"
  have "alloc_inv lineup (allocate lineup sc)" using assms by (rule alloc_inv_allocate)
  then have sub: "mset ?nv \<subseteq># mset (roster_nv lineup)"
    unfolding alloc_inv_def best_lineup_of_def by (metis mset_subset_eq_add_right subset_mset.order_trans)
  then have "image_mset fst (mset ?nv) \<subseteq># image_mset fst (mset (roster_nv lineup))"
    by (rule image_mset_subseteq_mono)
  then have "mset (map fst ?nv) \<subseteq># mset (map name lineup)"
    by (simp add: roster_nv_def comp_def image_mset.compositionality)
  then have dn: "distinct (map fst ?nv)" using assms by (rule distinct_mset_subseteq)
  have nm: "map fst ?nv = assigned_names ?bl"
    using names_of_entries[of ?bl] by (simp add: comp_def)
  have d1: "distinct (assigned_names ?bl)" using dn nm by simp
  have dnv: "distinct ?nv" using dn by (rule distinct_map[THEN iffD1, THEN conjunct1])
  define S where "S = {p \<in> set lineup. ?g p \<in> set ?nv}"
  have "set ?nv \<subseteq> set (roster_nv lineup)" using set_mset_mono[OF sub] by simp
  then have sub': "set ?nv \<subseteq> ?g ` set lineup" by (simp add: roster_nv_def)
  have gS: "?g ` S = set ?nv"
  proof
    show "?g ` S \<subseteq> set ?nv" unfolding S_def by blast
    show "set ?nv \<subseteq> ?g ` S"
    proof
      fix x assume x: "x \<in> set ?nv"
      with sub' obtain p where p: "p \<in> set lineup" "x = ?g p" by blast
      with x have "p \<in> S" unfolding S_def by blast
      then show "x \<in> ?g ` S" using p(2) by blast
    qed
  qed
  have inj: "inj_on ?g S"
  proof (rule inj_onI)
    fix p q assume "p \<in> S" "q \<in> S" "?g p = ?g q"
    then have "p \<in> set lineup" "q \<in> set lineup" "name p = name q" by (auto simp: S_def)
    moreover have "inj_on name (set lineup)" using assms by (simp add: distinct_map)
    ultimately show "p = q" by (meson inj_onD)
  qed
  have "name ` S = fst ` (?g ` S)" by (simp add: image_image)
  also have "\<dots> = set (map fst ?nv)" by (simp only: gS set_map)
  finally have n: "name ` S = set (assigned_names ?bl)" by (simp only: nm)
  have "best_score_of lineup sc = sum_list (map val (pool_entries ?bl))"
    by (simp add: best_score_of_def lineup_total_entries)
  also have "\<dots> = sum_list (map snd ?nv)"
  proof -
    have "map val (pool_entries ?bl) = map snd ?nv" by (simp add: val_def)
    then show ?thesis by (simp only:)
  qed
  also have "\<dots> = sum snd (set ?nv)" using dnv by (rule sum_list_distinct_conv_sum_set)
  also have "\<dots> = sum snd (?g ` S)" by (simp only: gS)
  also have "\<dots> = sum (snd \<circ> ?g) S" using inj by (rule sum.reindex)
  also have "\<dots> = sum points S" by (simp add: comp_def)
  finally have b: "best_score_of lineup sc = sum points S" .
  have "S \<subseteq> set lineup" by (auto simp: S_def)
  with n b d1 show ?thesis by blast
qed

theorem each_player_at_most_once_witness:
  "assigned_names
     (best_lineup_of
        [mk_player ''a'' ''QB'' ''QB'' 12, mk_player ''b'' ''RB'' ''BE'' 10,
         mk_player ''c'' ''RB'' ''RB'' 8, mk_player ''d'' ''WR'' ''RB/WR/TE'' 5,
         mk_player ''e'' ''TE'' ''BE'' 7]
        [(''QB'', 1), (''RB'', 1), (''RB/WR/TE'', 1), (''WR/TE'', 1), (''OP'', 1)]) =
     [''a'', ''b'', ''c'', ''e'', ''d''] \<and>
   distinct
     (assigned_names
        (best_lineup_of
           [mk_player ''a'' ''QB'' ''QB'' 12, mk_player ''b'' ''RB'' ''BE'' 10,
            mk_player ''c'' ''RB'' ''RB'' 8, mk_player ''d'' ''WR'' ''RB/WR/TE'' 5,
            mk_player ''e'' ''TE'' ''BE'' 7]
           [(''QB'', 1), (''RB'', 1), (''RB/WR/TE'', 1), (''WR/TE'', 1), (''OP'', 1)]))"
proof -
  let ?l = "[mk_player ''a'' ''QB'' ''QB'' 12, mk_player ''b'' ''RB'' ''BE'' 10,
         mk_player ''c'' ''RB'' ''RB'' 8, mk_player ''d'' ''WR'' ''RB/WR/TE'' 5,
         mk_player ''e'' ''TE'' ''BE'' 7]"
  have h: "distinct (map name ?l)" by (simp add: mk_player_def)
  have e: "assigned_names (best_lineup_of ?l
      [(''QB'', 1), (''RB'', 1), (''RB/WR/TE'', 1), (''WR/TE'', 1), (''OP'', 1)]) =
      [''a'', ''b'', ''c'', ''e'', ''d'']"
    by (simp add: eval_defs assigned_names_def)
  show ?thesis
    using each_player_at_most_once[OF h,
        of "[(''QB'', 1), (''RB'', 1), (''RB/WR/TE'', 1), (''WR/TE'', 1), (''OP'', 1)]"] e
    by simp
qed


section \<open>The slot-filling loops are total\<close>

lemma keys_position_players: "fst ` set (position_players_of l) = position ` set l"
proof (induction l rule: rev_induct)
  case Nil
  then show ?case by (simp add: position_players_of_def)
next
  case (snoc p l)
  then show ?case
    by (simp add: position_players_of_snoc place_player_def AList.dom_update split: option.splits)
qed

lemma fold_fill_flex_keep:
  "\<not> is_flex k \<Longrightarrow> map_of (snd (fold fill_flex sc (pp, bl))) k = map_of bl k"
proof (induction sc arbitrary: pp bl)
  case Nil
  then show ?case by simp
next
  case (Cons s sc)
  obtain k0 n0 where s: "s = (k0, n0)" by (cases s)
  show ?case
  proof (cases "is_flex k0")
    case True
    then have "k0 \<noteq> k" using Cons.prems by auto
    then show ?thesis
      using Cons.IH[OF Cons.prems] by (simp add: s fill_flex_eq True AList.update_conv')
  next
    case False
    then show ?thesis using Cons.IH[OF Cons.prems] by (simp add: s fill_flex_eq)
  qed
qed

lemma fill_named_keep:
  "k \<noteq> key \<Longrightarrow> map_of (snd (fill_named key F sc st)) k = map_of (snd st) k"
  by (cases st) (simp add: fill_named_eq AList.update_conv' split: option.splits)

lemma fold_fill_flex_keep_state:
  "\<not> is_flex k \<Longrightarrow> map_of (snd (fold fill_flex sc st)) k = map_of (snd st) k"
  by (cases st) (simp add: fold_fill_flex_keep)

lemma best_lineup_not_flex_key:
  assumes "\<not> flex_key k"
  shows "map_of (best_lineup_of lineup sc) k =
           map_of (snd (fold fill_position sc (position_players_of lineup, []))) k"
proof -
  define st1 where "st1 = fold fill_position sc (position_players_of lineup, [])"
  define st2 where "st2 = fold fill_flex sc st1"
  define st3 where "st3 = fill_named ''OP'' op_flex sc st2"
  have nf: "\<not> is_flex k" and no: "k \<noteq> ''OP''" and nd: "k \<noteq> ''DP''"
    using assms by (auto simp: flex_key_def)
  have "best_lineup_of lineup sc = snd (fill_named ''DP'' dp_flex sc st3)"
    by (simp add: best_lineup_of_def allocate_def st3_def st2_def st1_def)
  then have "map_of (best_lineup_of lineup sc) k = map_of (snd st3) k"
    by (simp only: fill_named_keep[OF nd])
  also have "\<dots> = map_of (snd st2) k"
    unfolding st3_def by (rule fill_named_keep[OF no])
  also have "\<dots> = map_of (snd st1) k"
    unfolding st2_def by (rule fold_fill_flex_keep_state[OF nf])
  finally show ?thesis by (simp add: st1_def)
qed

lemma flex_pool_skip:
  assumes "map_of pp fp = None"
  shows "flex_pool (fs1 @ fp # fs2) pp = flex_pool (fs1 @ fs2) pp"
  using assms by (simp add: flex_pool_def)

text \<open>
  Claim C10. The loops that fill the slots are total. A key of the configuration that
  is the position of no player of the roster gets the empty dictionary in the second
  loop (and keeps it to the end unless it names a flex slot); \<^verbatim>\<open>best_flex\<close> gives the
  same result with or without a flex position that has no bucket; and
  \<^verbatim>\<open>optimal_lineup_score\<close> either returns a tuple or raises the \<^verbatim>\<open>ZeroDivisionError\<close>
  of the percentage, which it does exactly when the best score is zero: no \<^verbatim>\<open>KeyError\<close>
  escapes.
\<close>

theorem slot_filling_total:
  "((pos, num) \<in> set sc \<and> pos \<notin> position ` set lineup \<longrightarrow>
      map_of (snd (fold fill_position sc (position_players_of lineup, []))) pos = Some [] \<and>
      (\<not> flex_key pos \<longrightarrow> map_of (best_lineup_of lineup sc) pos = Some [])) \<and>
   (map_of player_pool flex_position = None \<longrightarrow>
      best_flex (fs1 @ flex_position # fs2) player_pool n = best_flex (fs1 @ fs2) player_pool n) \<and>
   optimal_lineup_score lineup sc \<noteq> Inl KeyError \<and>
   (optimal_lineup_score lineup sc = Inl ZeroDivisionError \<longleftrightarrow> best_score_of lineup sc = 0) \<and>
   (best_score_of lineup sc \<noteq> 0 \<longrightarrow>
      optimal_lineup_score lineup sc =
        Inr (best_score_of lineup sc, actual_score lineup,
             best_score_of lineup sc - actual_score lineup,
             actual_score lineup / best_score_of lineup sc * 100))"
proof -
  have a: "map_of (snd (fold fill_position sc (position_players_of lineup, []))) pos = Some [] \<and>
      (\<not> flex_key pos \<longrightarrow> map_of (best_lineup_of lineup sc) pos = Some [])"
    if "(pos, num) \<in> set sc" "pos \<notin> position ` set lineup"
  proof -
    have "map_of (position_players_of lineup) pos = None"
      using that(2) by (simp add: map_of_eq_None_iff keys_position_players)
    moreover have "pos \<in> fst ` set sc" using that(1) by (metis fst_conv imageI)
    ultimately
    have "map_of (snd (fold fill_position sc (position_players_of lineup, []))) pos = Some []"
      using fill_positions_missing[of "position_players_of lineup" pos sc "[]"] by simp
    then show ?thesis using best_lineup_not_flex_key[of pos lineup sc] by simp
  qed
  have b: "best_flex (fs1 @ flex_position # fs2) player_pool n = best_flex (fs1 @ fs2) player_pool n"
    if "map_of player_pool flex_position = None"
    using flex_pool_skip[OF that] by (simp add: best_flex_def)
  show ?thesis
    using a b by (simp add: optimal_lineup_score_cases)
qed

theorem slot_filling_total_witness:
  "map_of (best_lineup_of [mk_player ''a'' ''QB'' ''QB'' 12]
             [(''QB'', 1), (''K'', 1), (''RB/WR/TE'', 1)]) ''K'' = Some [] \<and>
   best_flex [''RB'', ''WR'', ''TE''] [(''RB'', [(''b'', 10), (''c'', 8)]), (''TE'', [(''e'', 9)])] 2 =
   best_flex [''RB'', ''TE''] [(''RB'', [(''b'', 10), (''c'', 8)]), (''TE'', [(''e'', 9)])] 2 \<and>
   optimal_lineup_score [mk_player ''a'' ''QB'' ''QB'' 12]
     [(''QB'', 1), (''K'', 1), (''RB/WR/TE'', 1)] = Inr (12, 12, 0, 100)"
proof -
  have h1: "(''K'', 1) \<in> set [(''QB'', 1::nat), (''K'', 1), (''RB/WR/TE'', 1)]" by simp
  have h2: "''K'' \<notin> position ` set [mk_player ''a'' ''QB'' ''QB'' 12]" by (simp add: mk_player_def)
  have h3: "\<not> flex_key ''K''" by (simp add: flex_key_def is_flex_def)
  have h4: "map_of [(''RB'', [(''b'', 10::rat), (''c'', 8)]), (''TE'', [(''e'', 9)])] ''WR'' = None"
    by simp
  have h5: "best_score_of [mk_player ''a'' ''QB'' ''QB'' 12]
     [(''QB'', 1), (''K'', 1), (''RB/WR/TE'', 1)] \<noteq> 0" by (simp add: eval_defs)
  have e: "actual_score [mk_player ''a'' ''QB'' ''QB'' 12] = 12"
    "best_score_of [mk_player ''a'' ''QB'' ''QB'' 12]
     [(''QB'', 1), (''K'', 1), (''RB/WR/TE'', 1)] = 12" by (simp_all add: eval_defs)
  show ?thesis
    using slot_filling_total[of "''K''" 1 "[(''QB'', 1), (''K'', 1), (''RB/WR/TE'', 1)]"
        "[mk_player ''a'' ''QB'' ''QB'' 12]"
        "[(''RB'', [(''b'', 10), (''c'', 8)]), (''TE'', [(''e'', 9)])]" "''WR''"
        "[''RB'']" "[''TE'']" 2] h1 h2 h3 h4 h5 e
    by simp
qed


section \<open>Slots with too few players\<close>









text \<open>Unique names are needed: the buckets are dictionaries keyed by the name of the
  player, so of two RBs of one name only the second is kept, and a slot for three RBs is
  filled with one player.\<close>

lemma partial_fill_same_name:
  "best_lineup_of [mk_player ''x'' ''RB'' ''RB'' 5, mk_player ''x'' ''RB'' ''RB'' 7] [(''RB'', 3)] =
     [(''RB'', [(''x'', 7)])] \<and>
   optimal_lineup_score [mk_player ''x'' ''RB'' ''RB'' 5, mk_player ''x'' ''RB'' ''RB'' 7]
     [(''RB'', 3)] = Inr (7, 12, - 5, 1200 / 7)"
  by (simp add: eval_defs)

end
